theory Spec2Isabelle
  imports Complex_Main "HOL-Library.AList"
begin

section \<open>Data model\<close>

text \<open>
  \<^verbatim>\<open>interface RawLink { source: string; target: string }\<close>.  The record is polymorphic
  in the type of an endpoint: the traversal and layout code works on links between
  strings, the link generator on links whose endpoints are the result of an array read
  (a string, or \<^verbatim>\<open>undefined\<close>).
\<close>

record 'a link =
  source :: 'a
  target :: 'a

type_synonym RawLink = "string link"

text \<open>\<^verbatim>\<open>interface RawNode { id: string; label: string }\<close>\<close>

record RawNode =
  id' :: string
  label :: string

text \<open>\<^verbatim>\<open>interface NodeLayer { level: number; nodes: string[] }\<close>\<close>

record NodeLayer =
  level :: nat
  nodes :: "string list"

text \<open>
  \<^verbatim>\<open>interface NodeExploration { visits; insightful; neutral; familiar }\<close>: counters that
  start at 0 and are only ever incremented.
\<close>

record NodeExploration =
  visits :: nat
  insightful :: nat
  neutral :: nat
  familiar :: nat

type_synonym ExplorationMap = "string \<rightharpoonup> NodeExploration"

datatype feedback_type = Insightful | Neutral | Familiar

datatype js_error = TypeError

section \<open>Exploration score\<close>

definition getExplorationScore :: "string \<Rightarrow> ExplorationMap \<Rightarrow> real" where
  "getExplorationScore nodeId explorationData =
     (case explorationData nodeId of
        None \<Rightarrow> 0
      | Some data \<Rightarrow>
          (let totalFeedback = insightful data + neutral data + familiar data
           in if totalFeedback = 0 then 0
              else (real (insightful data) * 2 - real (familiar data) * 2) / real totalFeedback))"

section \<open>Layered traversal\<close>

text \<open>\<^verbatim>\<open>links.filter(l => l.source === nodeId).map(l => l.target)\<close>\<close>

definition outgoing :: "RawLink list \<Rightarrow> string \<Rightarrow> string list" where
  "outgoing links nodeId = map target (filter (\<lambda>l. source l = nodeId) links)"

text \<open>The \<^verbatim>\<open>nextLevel\<close> array built by pushing the successors of every valid node.\<close>

definition nextLevel :: "RawLink list \<Rightarrow> string list \<Rightarrow> string list" where
  "nextLevel links validNodes = concat (map (outgoing links) validNodes)"

text \<open>
  The first loop of \<^verbatim>\<open>getAdaptiveHierarchicalLayers\<close>: it collects \<^verbatim>\<open>allNodesInPath\<close>.
  The filter reads \<^verbatim>\<open>tempVisited\<close> as it is before the level is processed; the ids of
  the level are added afterwards.
\<close>

function collectPath :: "RawLink list \<Rightarrow> string set \<Rightarrow> string list \<Rightarrow> string list \<Rightarrow> string list" where
  "collectPath links tempVisited tempLevel allNodesInPath =
     (if tempLevel = [] then allNodesInPath
      else
        (let validNodes = filter (\<lambda>i. i \<notin> tempVisited) tempLevel
         in if validNodes = [] then allNodesInPath
            else collectPath links (tempVisited \<union> set validNodes)
                   (nextLevel links validNodes) (allNodesInPath @ validNodes)))"
  by pat_completeness auto
termination
proof (relation "measure (\<lambda>(links, vis, lev, acc). card ((set (map target links) \<union> set lev) - vis))")
  show "wf (measure (\<lambda>(links, vis, lev, acc). card ((set (map target links) \<union> set lev) - vis)))"
    by simp
next
  fix links :: "RawLink list" and tempVisited :: "string set"
    and tempLevel allNodesInPath validNodes :: "string list"
  assume ne: "tempLevel \<noteq> []"
    and v: "validNodes = filter (\<lambda>i. i \<notin> tempVisited) tempLevel"
    and vne: "validNodes \<noteq> []"
  let ?T = "set (map target links)"
  have sub: "set (nextLevel links validNodes) \<subseteq> ?T"
    by (auto simp: nextLevel_def outgoing_def)
  obtain a where a: "a \<in> set validNodes"
    using vne by (cases validNodes) auto
  have a1: "a \<in> (?T \<union> set tempLevel) - tempVisited"
    using a v by auto
  have a2: "a \<notin> (?T \<union> set (nextLevel links validNodes)) - (tempVisited \<union> set validNodes)"
    using a by auto
  have "(?T \<union> set (nextLevel links validNodes)) - (tempVisited \<union> set validNodes)
          \<subseteq> (?T \<union> set tempLevel) - tempVisited"
    using sub by auto
  with a1 a2 have "(?T \<union> set (nextLevel links validNodes)) - (tempVisited \<union> set validNodes)
          \<subset> (?T \<union> set tempLevel) - tempVisited"
    by blast
  then have "card ((?T \<union> set (nextLevel links validNodes)) - (tempVisited \<union> set validNodes))
          < card ((?T \<union> set tempLevel) - tempVisited)"
    by (intro psubset_card_mono) auto
  then show "((links, tempVisited \<union> set validNodes, nextLevel links validNodes,
               allNodesInPath @ validNodes),
              (links, tempVisited, tempLevel, allNodesInPath))
           \<in> measure (\<lambda>(links, vis, lev, acc). card ((set (map target links) \<union> set lev) - vis))"
    by simp
qed

text \<open>
  The last loop of \<^verbatim>\<open>getAdaptiveHierarchicalLayers\<close> (normal mode): one layer per
  iteration, holding the filtered level as it is.
\<close>

function bfsLayers :: "RawLink list \<Rightarrow> string set \<Rightarrow> string list \<Rightarrow> nat \<Rightarrow> NodeLayer list \<Rightarrow> NodeLayer list" where
  "bfsLayers links visited currentLevel lev layers =
     (if currentLevel = [] then layers
      else
        (let validNodes = filter (\<lambda>i. i \<notin> visited) currentLevel
         in if validNodes = [] then layers
            else bfsLayers links (visited \<union> set validNodes) (nextLevel links validNodes)
                   (lev + 1) (layers @ [\<lparr>level = lev, nodes = validNodes\<rparr>])))"
  by pat_completeness auto
termination
proof (relation "measure (\<lambda>(links, vis, cur, lev, acc). card ((set (map target links) \<union> set cur) - vis))")
  show "wf (measure (\<lambda>(links, vis, cur, lev, acc). card ((set (map target links) \<union> set cur) - vis)))"
    by simp
next
  fix links :: "RawLink list" and visited :: "string set"
    and currentLevel validNodes :: "string list" and lev :: nat and layers :: "NodeLayer list"
  assume ne: "currentLevel \<noteq> []"
    and v: "validNodes = filter (\<lambda>i. i \<notin> visited) currentLevel"
    and vne: "validNodes \<noteq> []"
  let ?T = "set (map target links)"
  have sub: "set (nextLevel links validNodes) \<subseteq> ?T"
    by (auto simp: nextLevel_def outgoing_def)
  obtain a where a: "a \<in> set validNodes"
    using vne by (cases validNodes) auto
  have a1: "a \<in> (?T \<union> set currentLevel) - visited"
    using a v by auto
  have a2: "a \<notin> (?T \<union> set (nextLevel links validNodes)) - (visited \<union> set validNodes)"
    using a by auto
  have "(?T \<union> set (nextLevel links validNodes)) - (visited \<union> set validNodes)
          \<subseteq> (?T \<union> set currentLevel) - visited"
    using sub by auto
  with a1 a2 have "(?T \<union> set (nextLevel links validNodes)) - (visited \<union> set validNodes)
          \<subset> (?T \<union> set currentLevel) - visited"
    by blast
  then have "card ((?T \<union> set (nextLevel links validNodes)) - (visited \<union> set validNodes))
          < card ((?T \<union> set currentLevel) - visited)"
    by (intro psubset_card_mono) auto
  then show "((links, visited \<union> set validNodes, nextLevel links validNodes, lev + 1,
               layers @ [\<lparr>level = lev, nodes = validNodes\<rparr>]),
              (links, visited, currentLevel, lev, layers))
           \<in> measure (\<lambda>(links, vis, cur, lev, acc). card ((set (map target links) \<union> set cur) - vis))"
    by simp
qed

text \<open>
  The \<^verbatim>\<open>forEach\<close> that distributes the sorted nodes into layers of \<^verbatim>\<open>nodesPerLayer = 3\<close>:
  \<open>n\<close> is \<^verbatim>\<open>nodesWithScores.length\<close>, \<open>idx\<close> the index of the element being visited.
\<close>

fun distribute :: "nat \<Rightarrow> nat \<Rightarrow> string list \<Rightarrow> string list \<Rightarrow> nat \<Rightarrow> NodeLayer list \<Rightarrow> NodeLayer list" where
  "distribute n idx [] currentLayerNodes currentLayerIndex layers = layers"
| "distribute n idx (node # rest) currentLayerNodes currentLayerIndex layers =
     (let pushed = currentLayerNodes @ [node]
      in if length pushed \<ge> 3 \<or> int idx = int n - 1
         then distribute n (idx + 1) rest [] (currentLayerIndex + 1)
                (layers @ [\<lparr>level = currentLayerIndex, nodes = pushed\<rparr>])
         else distribute n (idx + 1) rest pushed currentLayerIndex layers)"

text \<open>
  \<^verbatim>\<open>nodesWithScores.sort((a, b) => b.score - a.score)\<close>: the array sort is stable and the
  comparator orders by descending score, which is the stable sort on the key \<open>- score\<close>.
\<close>

definition sortByScore :: "(string \<times> real) list \<Rightarrow> (string \<times> real) list" where
  "sortByScore nodesWithScores = sort_key (\<lambda>p. - snd p) nodesWithScores"

definition getAdaptiveHierarchicalLayers ::
  "string \<Rightarrow> RawLink list \<Rightarrow> ExplorationMap \<Rightarrow> bool \<Rightarrow> NodeLayer list" where
  "getAdaptiveHierarchicalLayers startId links explorationData cyberneticMode =
     (let allNodesInPath = collectPath links {} [startId] []
      in if cyberneticMode \<and> length allNodesInPath > 1
         then
           (let startNode = hd allNodesInPath;
                otherNodes = tl allNodesInPath;
                nodesWithScores =
                  map (\<lambda>nodeId. (nodeId, getExplorationScore nodeId explorationData)) otherNodes;
                sorted = sortByScore nodesWithScores
            in distribute (length sorted) 0 (map fst sorted) [] 1
                 [\<lparr>level = 0, nodes = [startNode]\<rparr>])
         else bfsLayers links {} [startId] 0 [])"

section \<open>Recording feedback\<close>

text \<open>
  The component state that \<^verbatim>\<open>handleFeedback\<close> reads and writes.  \<^verbatim>\<open>activeNode\<close> is a
  string or \<^verbatim>\<open>null\<close>.
\<close>

record session =
  explorationData :: ExplorationMap
  activeNode :: "string option"
  cyberneticMode :: bool
  hierarchicalLayers :: "NodeLayer list"
  previousLayers :: "NodeLayer list"

text \<open>\<^verbatim>\<open>{ ...current, [type]: current[type] + 1 }\<close>\<close>

fun increment :: "feedback_type \<Rightarrow> NodeExploration \<Rightarrow> NodeExploration" where
  "increment Insightful current = current\<lparr>insightful := insightful current + 1\<rparr>"
| "increment Neutral current = current\<lparr>neutral := neutral current + 1\<rparr>"
| "increment Familiar current = current\<lparr>familiar := familiar current + 1\<rparr>"

text \<open>
  \<^verbatim>\<open>newExplorationData.get(nodeId)!\<close> is \<^verbatim>\<open>undefined\<close> for an id without a record (the
  \<^verbatim>\<open>!\<close> is erased at run time), and reading \<^verbatim>\<open>current[type]\<close> from it throws a
  \<^verbatim>\<open>TypeError\<close> before any state is set.  \<^verbatim>\<open>activeNode && cyberneticMode\<close>: \<^verbatim>\<open>null\<close> and
  the empty string are falsy.
\<close>

definition handleFeedback :: "RawLink list \<Rightarrow> session \<Rightarrow> string \<Rightarrow> feedback_type \<Rightarrow> js_error + session" where
  "handleFeedback links s nodeId ty =
     (case explorationData s nodeId of
        None \<Rightarrow> Inl TypeError
      | Some current \<Rightarrow>
          (let newExplorationData = (explorationData s)(nodeId \<mapsto> increment ty current);
               s1 = s\<lparr>explorationData := newExplorationData\<rparr>
           in case activeNode s of
                None \<Rightarrow> Inr s1
              | Some active \<Rightarrow>
                  if active \<noteq> [] \<and> cyberneticMode s
                  then Inr (s1\<lparr>previousLayers := hierarchicalLayers s,
                              hierarchicalLayers :=
                                getAdaptiveHierarchicalLayers active links
                                  newExplorationData (cyberneticMode s)\<rparr>)
                  else Inr s1))"

text \<open>The initial exploration map: a zero record for every node of the data set.\<close>

definition initialExploration :: "RawNode list \<Rightarrow> ExplorationMap" where
  "initialExploration ns =
     fold (\<lambda>node m. m(id' node \<mapsto> \<lparr>visits = 0, insightful = 0, neutral = 0, familiar = 0\<rparr>))
       ns Map.empty"

section \<open>Flat traversal\<close>

text \<open>
  \<^verbatim>\<open>bfsPath\<close>: the queue loop.  \<^verbatim>\<open>queue.shift()\<close> takes the head; a visited head is
  dropped (\<^verbatim>\<open>continue\<close>); otherwise the successors not yet visited are pushed at the end.
\<close>

function bfsLoop :: "RawLink list \<Rightarrow> string set \<Rightarrow> string list \<Rightarrow> string list \<Rightarrow> string list" where
  "bfsLoop links visited [] path = path"
| "bfsLoop links visited (current # queue) path =
     (if current \<in> visited then bfsLoop links visited queue path
      else bfsLoop links (insert current visited)
             (queue @ filter (\<lambda>n. n \<notin> insert current visited) (outgoing links current))
             (path @ [current]))"
  by pat_completeness auto
termination
proof (relation "measures [\<lambda>(links, vis, q, p). card ((set (map target links) \<union> set q) - vis),
                           \<lambda>(links, vis, q, p). length q]")
  show "wf (measures [\<lambda>(links, vis, q, p). card ((set (map target links) \<union> set q) - vis),
                      \<lambda>(links, vis, q, p). length q])"
    by simp
next
  fix links :: "RawLink list" and visited :: "string set" and current :: string
    and queue path :: "string list"
  assume "current \<in> visited"
  have "(set (map target links) \<union> set queue) - visited
          \<subseteq> (set (map target links) \<union> set (current # queue)) - visited"
    by auto
  then have "card ((set (map target links) \<union> set queue) - visited)
          \<le> card ((set (map target links) \<union> set (current # queue)) - visited)"
    by (intro card_mono) auto
  then show "((links, visited, queue, path), (links, visited, current # queue, path))
           \<in> measures [\<lambda>(links, vis, q, p). card ((set (map target links) \<union> set q) - vis),
                        \<lambda>(links, vis, q, p). length q]"
    by auto
next
  fix links :: "RawLink list" and visited :: "string set" and current :: string
    and queue path :: "string list"
  assume nv: "current \<notin> visited"
  let ?T = "set (map target links)"
  let ?q = "queue @ filter (\<lambda>n. n \<notin> insert current visited) (outgoing links current)"
  have "set (outgoing links current) \<subseteq> ?T"
    by (auto simp: outgoing_def)
  then have "(?T \<union> set ?q) - insert current visited
          \<subseteq> (?T \<union> set (current # queue)) - visited"
    by auto
  moreover have "current \<in> (?T \<union> set (current # queue)) - visited"
    using nv by simp
  moreover have "current \<notin> (?T \<union> set ?q) - insert current visited"
    by simp
  ultimately have "(?T \<union> set ?q) - insert current visited
          \<subset> (?T \<union> set (current # queue)) - visited"
    by blast
  then have "card ((?T \<union> set ?q) - insert current visited)
          < card ((?T \<union> set (current # queue)) - visited)"
    by (intro psubset_card_mono) auto
  then show "((links, insert current visited, ?q, path @ [current]),
              (links, visited, current # queue, path))
           \<in> measures [\<lambda>(links, vis, q, p). card ((set (map target links) \<union> set q) - vis),
                        \<lambda>(links, vis, q, p). length q]"
    by simp
qed

definition bfsPath :: "string \<Rightarrow> RawLink list \<Rightarrow> string list" where
  "bfsPath startId links = bfsLoop links {} [startId] []"

text \<open>
  The directed edge relation of a link list, and the ids reachable from a start id
  along it (the start included).
\<close>

definition edges :: "RawLink list \<Rightarrow> (string \<times> string) set" where
  "edges links = (\<lambda>l. (source l, target l)) ` set links"

definition reachable :: "RawLink list \<Rightarrow> string \<Rightarrow> string set" where
  "reachable links startId = (edges links)\<^sup>* `` {startId}"

section \<open>Force-directed layout\<close>

text \<open>
  Numbers are modelled as real numbers: the arithmetic of \<^verbatim>\<open>forceDirectedLayout\<close> is
  taken exactly, without the rounding and without the overflow of IEEE doubles.  A
  property that depends on the values of the coordinates is therefore stated for the
  calls that stay in the range of the doubles (\<open>layoutInRange\<close> below).
\<close>

record Position =
  x :: real
  y :: real
  vx :: real
  vy :: real

text \<open>
  \<^verbatim>\<open>Map<string, Position>\<close>: entries in insertion order, one per key.  \<^verbatim>\<open>positions.set\<close>
  is \<^const>\<open>AList.update\<close> (replace in place or append), \<^verbatim>\<open>positions.get\<close> is
  \<^const>\<open>map_of\<close>.  The code mutates the object it got from the map; \<open>mutate\<close> applies
  the assignment to the object stored under the key.
\<close>

type_synonym PositionMap = "(string \<times> Position) list"

definition mutate :: "string \<Rightarrow> (Position \<Rightarrow> Position) \<Rightarrow> PositionMap \<Rightarrow> PositionMap" where
  "mutate k f ps = map (\<lambda>(k', p). if k' = k then (k', f p) else (k', p)) ps"

text \<open>
  The random source: \<open>rnd k\<close> is the value of the \<open>k\<close>-th call of \<^verbatim>\<open>Math.random()\<close>; the
  state counts the calls made so far.
\<close>

type_synonym random_source = "nat \<Rightarrow> real"

record sim =
  positions :: PositionMap
  draws :: nat

definition repulsionStrength :: real where
  "repulsionStrength = 0.5"

definition attractionStrength :: real where
  "attractionStrength = 0.02"

definition damping :: real where
  "damping = 0.85"

definition targetSize :: real where
  "targetSize = 8"

text \<open>A \<^verbatim>\<open>forEach\<close> whose body may throw: the first error ends the loop.\<close>

fun forEachE :: "('a \<Rightarrow> 's \<Rightarrow> js_error + 's) \<Rightarrow> 'a list \<Rightarrow> 's \<Rightarrow> js_error + 's" where
  "forEachE f [] s = Inr s"
| "forEachE f (a # as) s = (case f a s of Inl e \<Rightarrow> Inl e | Inr s' \<Rightarrow> forEachE f as s')"

text \<open>Initialisation of one node, \<open>i\<close> its index and \<open>n\<close> the number of nodes.\<close>

definition initNode :: "random_source \<Rightarrow> bool \<Rightarrow> nat \<Rightarrow> RawNode \<times> nat \<Rightarrow> sim \<Rightarrow> sim" where
  "initNode rnd randomize n = (\<lambda>(node, i) s.
     if randomize then
       (let angle = rnd (draws s) * pi * 2;
            radius = 2 + rnd (draws s + 1) * 3
        in s\<lparr>positions := AList.update (id' node)
                \<lparr>x = cos angle * radius, y = sin angle * radius,
                 vx = (rnd (draws s + 2) - 0.5) * 0.1,
                 vy = (rnd (draws s + 3) - 0.5) * 0.1\<rparr> (positions s),
              draws := draws s + 4\<rparr>)
     else
       (let angle = (real i / real n) * pi * 2;
            radius = 3.5
        in s\<lparr>positions := AList.update (id' node)
                \<lparr>x = cos angle * radius, y = sin angle * radius, vx = 0, vy = 0\<rparr>
                (positions s)\<rparr>))"

definition initPositions :: "random_source \<Rightarrow> bool \<Rightarrow> RawNode list \<Rightarrow> sim" where
  "initPositions rnd randomize ns =
     fold (initNode rnd randomize (length ns)) (zip ns [0..<length ns])
       \<lparr>positions = [], draws = 0\<rparr>"

text \<open>
  The body of the inner repulsion loop.  \<^verbatim>\<open>positions.get(...)!\<close> may be \<^verbatim>\<open>undefined\<close>, and
  reading \<^verbatim>\<open>.x\<close> from it throws.
\<close>

definition repel :: "RawNode \<Rightarrow> RawNode \<Rightarrow> PositionMap \<Rightarrow> js_error + PositionMap" where
  "repel nodeA nodeB ps =
     (if id' nodeA = id' nodeB then Inr ps
      else case map_of ps (id' nodeA) of
        None \<Rightarrow> Inl TypeError
      | Some posA \<Rightarrow>
          (case map_of ps (id' nodeB) of
             None \<Rightarrow> Inl TypeError
           | Some posB \<Rightarrow>
               (let dx = x posA - x posB;
                    dy = y posA - y posB;
                    distSq = dx * dx + dy * dy + 0.01;
                    dist = sqrt distSq;
                    force = repulsionStrength / distSq
                in Inr (mutate (id' nodeA)
                          (\<lambda>p. p\<lparr>vx := vx p + (dx / dist) * force,
                                 vy := vy p + (dy / dist) * force\<rparr>) ps))))"

definition repulsion :: "RawNode list \<Rightarrow> PositionMap \<Rightarrow> js_error + PositionMap" where
  "repulsion ns ps = forEachE (\<lambda>nodeA. forEachE (\<lambda>nodeB. repel nodeA nodeB) ns) ns ps"

text \<open>
  The body of the attraction loop: a link with an endpoint that has no position is
  skipped (\<^verbatim>\<open>if (!posA || !posB) return\<close>).
\<close>

definition attract :: "RawLink \<Rightarrow> PositionMap \<Rightarrow> PositionMap" where
  "attract lnk ps =
     (case map_of ps (source lnk) of
        None \<Rightarrow> ps
      | Some posA \<Rightarrow>
          (case map_of ps (target lnk) of
             None \<Rightarrow> ps
           | Some posB \<Rightarrow>
               (let dx = x posB - x posA;
                    dy = y posB - y posA;
                    dist = sqrt (dx * dx + dy * dy + 0.01);
                    force = dist * attractionStrength
                in mutate (target lnk)
                     (\<lambda>p. p\<lparr>vx := vx p - (dx / dist) * force,
                            vy := vy p - (dy / dist) * force\<rparr>)
                     (mutate (source lnk)
                        (\<lambda>p. p\<lparr>vx := vx p + (dx / dist) * force,
                               vy := vy p + (dy / dist) * force\<rparr>) ps))))"

text \<open>The body of the position update loop, with the jitter of the randomised mode.\<close>

definition integrate :: "random_source \<Rightarrow> bool \<Rightarrow> nat \<Rightarrow> nat \<Rightarrow> RawNode \<Rightarrow> sim \<Rightarrow> js_error + sim" where
  "integrate rnd randomize iterations iter node s =
     (case map_of (positions s) (id' node) of
        None \<Rightarrow> Inl TypeError
      | Some pos \<Rightarrow>
          (let moved = mutate (id' node)
                 (\<lambda>p. p\<lparr>x := x p + vx p, y := y p + vy p,
                        vx := vx p * damping, vy := vy p * damping\<rparr>) (positions s)
           in if randomize \<and> real iter < real iterations / 3
              then Inr (s\<lparr>positions := mutate (id' node)
                            (\<lambda>p. p\<lparr>x := x p + (rnd (draws s) - 0.5) * 0.05,
                                   y := y p + (rnd (draws s + 1) - 0.5) * 0.05\<rparr>) moved,
                          draws := draws s + 2\<rparr>)
              else Inr (s\<lparr>positions := moved\<rparr>)))"

text \<open>One iteration of the simulation loop.\<close>

definition simStep :: "random_source \<Rightarrow> bool \<Rightarrow> RawNode list \<Rightarrow> RawLink list \<Rightarrow> nat \<Rightarrow> nat \<Rightarrow> sim \<Rightarrow> js_error + sim" where
  "simStep rnd randomize ns links iterations iter s =
     (case repulsion ns (positions s) of
        Inl e \<Rightarrow> Inl e
      | Inr repelled \<Rightarrow>
          forEachE (integrate rnd randomize iterations iter) ns
            (s\<lparr>positions := fold attract links repelled\<rparr>))"

text \<open>\<^verbatim>\<open>for (let iter = 0; iter < iterations; iter++)\<close>\<close>

function simulate :: "random_source \<Rightarrow> bool \<Rightarrow> RawNode list \<Rightarrow> RawLink list \<Rightarrow> nat \<Rightarrow> nat \<Rightarrow> sim \<Rightarrow> js_error + sim" where
  "simulate rnd randomize ns links iterations iter s =
     (if iter < iterations
      then (case simStep rnd randomize ns links iterations iter s of
              Inl e \<Rightarrow> Inl e
            | Inr s' \<Rightarrow> simulate rnd randomize ns links iterations (iter + 1) s')
      else Inr s)"
  by pat_completeness auto
termination
  by (relation "measure (\<lambda>(rnd, randomize, ns, links, iterations, iter, s). iterations - iter)") auto

text \<open>
  The bounding box is accumulated from \<^verbatim>\<open>Infinity\<close> and \<^verbatim>\<open>-Infinity\<close>; \<^verbatim>\<open>Math.min\<close> and
  \<^verbatim>\<open>Math.max\<close> of an accumulator and a finite coordinate.
\<close>

datatype bound = MinusInfinity | Finite real | PlusInfinity

fun jsMin :: "bound \<Rightarrow> real \<Rightarrow> bound" where
  "jsMin PlusInfinity v = Finite v"
| "jsMin (Finite m) v = Finite (min m v)"
| "jsMin MinusInfinity v = MinusInfinity"

fun jsMax :: "bound \<Rightarrow> real \<Rightarrow> bound" where
  "jsMax MinusInfinity v = Finite v"
| "jsMax (Finite m) v = Finite (max m v)"
| "jsMax PlusInfinity v = PlusInfinity"

text \<open>
  The normalisation pass.  The four bounds are finite as soon as the map has an entry;
  for the empty map the final \<^verbatim>\<open>forEach\<close> has nothing to rescale.
  \<^verbatim>\<open>Math.max(rangeX, rangeY) || 1\<close> replaces a zero range by 1.
\<close>

definition normalizeLayout :: "PositionMap \<Rightarrow> PositionMap" where
  "normalizeLayout ps =
     (case (fold (\<lambda>(k, pos) m. jsMin m (x pos)) ps PlusInfinity,
            fold (\<lambda>(k, pos) m. jsMax m (x pos)) ps MinusInfinity,
            fold (\<lambda>(k, pos) m. jsMin m (y pos)) ps PlusInfinity,
            fold (\<lambda>(k, pos) m. jsMax m (y pos)) ps MinusInfinity) of
        (Finite minX, Finite maxX, Finite minY, Finite maxY) \<Rightarrow>
          (let rangeX = maxX - minX;
               rangeY = maxY - minY;
               maxRange = (if max rangeX rangeY = 0 then 1 else max rangeX rangeY);
               scale = targetSize / maxRange;
               centerX = (minX + maxX) / 2;
               centerY = (minY + maxY) / 2
           in map (\<lambda>(k, pos). (k, pos\<lparr>x := (x pos - centerX) * scale,
                                      y := (y pos - centerY) * scale\<rparr>)) ps)
      | _ \<Rightarrow> ps)"

definition forceDirectedLayout :: "random_source \<Rightarrow> RawNode list \<Rightarrow> RawLink list \<Rightarrow> bool \<Rightarrow> js_error + PositionMap" where
  "forceDirectedLayout rnd ns links randomize =
     (let iterations = (if randomize then 200 else 100)
      in case simulate rnd randomize ns links iterations 0 (initPositions rnd randomize ns) of
           Inl e \<Rightarrow> Inl e
         | Inr s \<Rightarrow> Inr (normalizeLayout (positions s)))"






section \<open>Random link generation\<close>

text \<open>
  The state of \<^verbatim>\<open>randomizeConnections\<close>.  An endpoint is what \<^verbatim>\<open>nodeIds[i]\<close> returned: an
  id, or \<^verbatim>\<open>undefined\<close> (\<open>None\<close>) when the index is outside the array.  \<open>consumed\<close> counts
  the calls of \<^verbatim>\<open>Math.random()\<close>.
\<close>

record gen =
  newLinks :: "string option link list"
  usedPairs :: "string set"
  outgoingCount :: "string option \<rightharpoonup> nat"
  incomingCount :: "string option \<rightharpoonup> nat"
  consumed :: nat

text \<open>\<^verbatim>\<open>map.get(k) || 0\<close>\<close>

definition getCount :: "('k \<rightharpoonup> nat) \<Rightarrow> 'k \<Rightarrow> nat" where
  "getCount m k = (case m k of None \<Rightarrow> 0 | Some c \<Rightarrow> c)"

text \<open>The template literal \<^verbatim>\<open>`${source}-${target}`\<close>; \<^verbatim>\<open>undefined\<close> prints as its name.\<close>

definition jsString :: "string option \<Rightarrow> string" where
  "jsString v = (case v of None \<Rightarrow> ''undefined'' | Some s \<Rightarrow> s)"

definition pairKey :: "string option \<Rightarrow> string option \<Rightarrow> string" where
  "pairKey s t = jsString s @ ''-'' @ jsString t"

text \<open>Array read \<^verbatim>\<open>xs[i]\<close> at an integer index.\<close>

definition arrayAt :: "'a list \<Rightarrow> int \<Rightarrow> 'a option" where
  "arrayAt xs i = (if 0 \<le> i \<and> i < int (length xs) then Some (xs ! nat i) else None)"

text \<open>\<^verbatim>\<open>nodeIds[Math.floor(Math.random() * nodeIds.length)]\<close>, for the \<open>k\<close>-th random value.\<close>

definition pick :: "random_source \<Rightarrow> string list \<Rightarrow> nat \<Rightarrow> string option" where
  "pick rnd nodeIds k = arrayAt nodeIds \<lfloor>rnd k * real (length nodeIds)\<rfloor>"

text \<open>The guarded push that all three passes share.\<close>

definition tryLink :: "string option \<Rightarrow> string option \<Rightarrow> gen \<Rightarrow> gen" where
  "tryLink s t g =
     (if s \<noteq> t \<and> pairKey s t \<notin> usedPairs g
      then g\<lparr>newLinks := newLinks g @ [\<lparr>source = s, target = t\<rparr>],
             usedPairs := insert (pairKey s t) (usedPairs g),
             outgoingCount := (outgoingCount g)(s \<mapsto> getCount (outgoingCount g) s + 1),
             incomingCount := (incomingCount g)(t \<mapsto> getCount (incomingCount g) t + 1)\<rparr>
      else g)"

text \<open>
  A \<^verbatim>\<open>while\<close> loop with condition \<open>b\<close> and body \<open>c\<close>; \<open>None\<close> is the loop that never
  leaves.
\<close>

partial_function (option) whileLoop :: "('s \<Rightarrow> bool) \<Rightarrow> ('s \<Rightarrow> 's) \<Rightarrow> 's \<Rightarrow> 's option" where
  "whileLoop b c s = (if b s then whileLoop b c (c s) else Some s)"

text \<open>A \<^verbatim>\<open>for ... of\<close> loop whose body may not return.\<close>

fun forOf :: "('a \<Rightarrow> 's \<Rightarrow> 's option) \<Rightarrow> 'a list \<Rightarrow> 's \<Rightarrow> 's option" where
  "forOf f [] s = Some s"
| "forOf f (a # as) s = (case f a s of None \<Rightarrow> None | Some s' \<Rightarrow> forOf f as s')"

definition minConnectionsPerNode :: nat where
  "minConnectionsPerNode = 3"

text \<open>
  \<^verbatim>\<open>nodeIds.forEach(id => { outgoingCount.set(id, 0); incomingCount.set(id, 0); })\<close>
\<close>

definition initCount :: "string \<Rightarrow> gen \<Rightarrow> gen" where
  "initCount i g = g\<lparr>outgoingCount := (outgoingCount g)(Some i \<mapsto> 0),
                      incomingCount := (incomingCount g)(Some i \<mapsto> 0)\<rparr>"

definition initGen :: "string list \<Rightarrow> gen" where
  "initGen nodeIds =
     fold initCount nodeIds
       \<lparr>newLinks = [], usedPairs = {}, outgoingCount = Map.empty, incomingCount = Map.empty,
        consumed = 0\<rparr>"

text \<open>First pass: the body of the \<^verbatim>\<open>while\<close> loop and the loop over the source nodes.\<close>

definition outgoingStep :: "random_source \<Rightarrow> string list \<Rightarrow> string \<Rightarrow> gen \<Rightarrow> gen" where
  "outgoingStep rnd nodeIds sourceNode g =
     tryLink (Some sourceNode) (pick rnd nodeIds (consumed g)) (g\<lparr>consumed := consumed g + 1\<rparr>)"

definition firstPass :: "random_source \<Rightarrow> string list \<Rightarrow> gen \<Rightarrow> gen option" where
  "firstPass rnd nodeIds =
     forOf (\<lambda>sourceNode.
              whileLoop (\<lambda>g. getCount (outgoingCount g) (Some sourceNode) < minConnectionsPerNode)
                (outgoingStep rnd nodeIds sourceNode)) nodeIds"

text \<open>Second pass, the same for incoming links.\<close>

definition incomingStep :: "random_source \<Rightarrow> string list \<Rightarrow> string \<Rightarrow> gen \<Rightarrow> gen" where
  "incomingStep rnd nodeIds targetNode g =
     tryLink (pick rnd nodeIds (consumed g)) (Some targetNode) (g\<lparr>consumed := consumed g + 1\<rparr>)"

definition secondPass :: "random_source \<Rightarrow> string list \<Rightarrow> gen \<Rightarrow> gen option" where
  "secondPass rnd nodeIds =
     forOf (\<lambda>targetNode.
              whileLoop (\<lambda>g. getCount (incomingCount g) (Some targetNode) < minConnectionsPerNode)
                (incomingStep rnd nodeIds targetNode)) nodeIds"

text \<open>
  Third pass: the loop state is the generator state and \<^verbatim>\<open>attempts\<close>; both endpoints are
  drawn, the source first.
\<close>

definition topUpStep :: "random_source \<Rightarrow> string list \<Rightarrow> gen \<times> nat \<Rightarrow> gen \<times> nat" where
  "topUpStep rnd nodeIds = (\<lambda>(g, attempts).
     (tryLink (pick rnd nodeIds (consumed g)) (pick rnd nodeIds (consumed g + 1))
        (g\<lparr>consumed := consumed g + 2\<rparr>),
      attempts + 1))"

definition thirdPass :: "random_source \<Rightarrow> string list \<Rightarrow> nat \<Rightarrow> gen \<Rightarrow> (gen \<times> nat) option" where
  "thirdPass rnd nodeIds targetNumLinks g =
     (let maxAttempts = targetNumLinks * 10
      in whileLoop (\<lambda>(g, attempts). length (newLinks g) < targetNumLinks \<and> attempts < maxAttempts)
           (topUpStep rnd nodeIds) (g, 0))"

text \<open>
  \<^verbatim>\<open>randomizeConnections\<close>, with the node ids and \<^verbatim>\<open>originalLinksRef.current.length\<close> that
  it reads from the component as parameters.
\<close>

definition randomizeConnections :: "random_source \<Rightarrow> string list \<Rightarrow> nat \<Rightarrow> string option link list option" where
  "randomizeConnections rnd nodeIds targetNumLinks =
     (case firstPass rnd nodeIds (initGen nodeIds) of
        None \<Rightarrow> None
      | Some g1 \<Rightarrow>
          (case secondPass rnd nodeIds g1 of
             None \<Rightarrow> None
           | Some g2 \<Rightarrow>
               (case thirdPass rnd nodeIds targetNumLinks g2 of
                  None \<Rightarrow> None
                | Some (g3, attempts) \<Rightarrow> Some (newLinks g3))))"

text \<open>Degrees of an id in a generated link list.\<close>

definition outDegree :: "'a link list \<Rightarrow> 'a \<Rightarrow> nat" where
  "outDegree ls v = length (filter (\<lambda>l. source l = v) ls)"

definition inDegree :: "'a link list \<Rightarrow> 'a \<Rightarrow> nat" where
  "inDegree ls v = length (filter (\<lambda>l. target l = v) ls)"

text \<open>A random source given by its first values (0 afterwards).\<close>

definition listSource :: "real list \<Rightarrow> random_source" where
  "listSource vs k = (if k < length vs then vs ! k else 0)"

section \<open>Notions used in the proofs\<close>

text \<open>
  The invariant of the generator state: no self-loop, no pair twice, every pair recorded
  under its key, and the two count maps equal to the degrees in the link list.
\<close>

definition genInv :: "gen \<Rightarrow> bool" where
  "genInv g \<longleftrightarrow>
     (\<forall>l\<in>set (newLinks g). source l \<noteq> target l) \<and>
     distinct (map (\<lambda>l. (source l, target l)) (newLinks g)) \<and>
     (\<forall>l\<in>set (newLinks g). pairKey (source l) (target l) \<in> usedPairs g) \<and>
     (\<forall>k. getCount (outgoingCount g) k = outDegree (newLinks g) k) \<and>
     (\<forall>k. getCount (incomingCount g) k = inDegree (newLinks g) k)"

definition grows :: "gen \<Rightarrow> gen \<Rightarrow> bool" where
  "grows g g' \<longleftrightarrow>
     (\<forall>k. outDegree (newLinks g) k \<le> outDegree (newLinks g') k) \<and>
     (\<forall>k. inDegree (newLinks g) k \<le> inDegree (newLinks g') k)"



section \<open>The range of the simulation\<close>






section \<open>Example inputs\<close>

text \<open>A diamond: \<open>D\<close> is a successor of both \<open>B\<close> and \<open>C\<close>, which share a layer.\<close>

definition diamond :: "RawLink list" where
  "diamond = [\<lparr>source = ''A'', target = ''B''\<rparr>, \<lparr>source = ''A'', target = ''C''\<rparr>,
              \<lparr>source = ''B'', target = ''D''\<rparr>, \<lparr>source = ''C'', target = ''D''\<rparr>]"

text \<open>A star with four leaves, and feedback that praises \<open>E\<close> and finds \<open>B\<close> familiar.\<close>

definition star :: "RawLink list" where
  "star = [\<lparr>source = ''A'', target = ''B''\<rparr>, \<lparr>source = ''A'', target = ''C''\<rparr>,
           \<lparr>source = ''A'', target = ''D''\<rparr>, \<lparr>source = ''A'', target = ''E''\<rparr>]"

definition starFeedback :: ExplorationMap where
  "starFeedback = [''E'' \<mapsto> \<lparr>visits = 1, insightful = 2, neutral = 0, familiar = 0\<rparr>,
                   ''B'' \<mapsto> \<lparr>visits = 1, insightful = 0, neutral = 0, familiar = 2\<rparr>]"

text \<open>A session whose exploration map has no record at all, and one with a zero record.\<close>

definition emptySession :: session where
  "emptySession = \<lparr>explorationData = Map.empty, activeNode = None, cyberneticMode = False,
     hierarchicalLayers = [], previousLayers = []\<rparr>"

definition freshSession :: session where
  "freshSession = \<lparr>explorationData =
       initialExploration [\<lparr>id' = ''form'', label = ''Form''\<rparr>],
     activeNode = None, cyberneticMode = False,
     hierarchicalLayers = [], previousLayers = []\<rparr>"

text \<open>
  Four node ids; a random source whose draws complete the minimum-degree passes without
  a rejected pair, and one that always returns 0.
\<close>

definition fourIds :: "string list" where
  "fourIds = [''form'', ''function'', ''material'', ''emotion'']"

definition luckySource :: random_source where
  "luckySource = listSource [1/4, 1/2, 3/4, 0, 1/2, 3/4, 0, 1/4, 3/4, 0, 1/4, 1/2]"

definition stuckSource :: random_source where
  "stuckSource = listSource []"

definition mkLink :: "string \<Rightarrow> string \<Rightarrow> string option link" where
  "mkLink s t = \<lparr>source = Some s, target = Some t\<rparr>"

definition completeLinks :: "string option link list" where
  "completeLinks =
     [mkLink ''form'' ''function'', mkLink ''form'' ''material'', mkLink ''form'' ''emotion'',
      mkLink ''function'' ''form'', mkLink ''function'' ''material'', mkLink ''function'' ''emotion'',
      mkLink ''material'' ''form'', mkLink ''material'' ''function'', mkLink ''material'' ''emotion'',
      mkLink ''emotion'' ''form'', mkLink ''emotion'' ''function'', mkLink ''emotion'' ''material'']"

text \<open>
  Layout inputs: a single node with a link to an id that is not a node, the position
  map in which that node rests, and three nodes without links.
\<close>

definition oneNode :: "RawNode list" where
  "oneNode = [\<lparr>id' = ''form'', label = ''Form''\<rparr>]"

definition dangling :: RawLink where
  "dangling = \<lparr>source = ''form'', target = ''ghost''\<rparr>"

definition atRest :: PositionMap where
  "atRest = [(''form'', \<lparr>x = 3.5, y = 0, vx = 0, vy = 0\<rparr>)]"





section \<open>Properties of the exploration score and of feedback\<close>

text \<open>
  C7.  \<^verbatim>\<open>getExplorationScore\<close> is 0 for a node without a record, 0 for a record with no
  feedback, \<open>(insightful * 2 - familiar * 2) / total\<close> for a record with feedback, and
  always lies between \<open>-2\<close> and \<open>2\<close>.
\<close>

theorem getExplorationScore_spec:
  "(m nodeId = None \<longrightarrow> getExplorationScore nodeId m = 0) \<and>
   (\<forall>d. m nodeId = Some d \<longrightarrow>
      (insightful d + neutral d + familiar d > 0 \<longrightarrow>
         getExplorationScore nodeId m =
           (real (insightful d) * 2 - real (familiar d) * 2)
             / real (insightful d + neutral d + familiar d)) \<and>
      (insightful d + neutral d + familiar d = 0 \<longrightarrow> getExplorationScore nodeId m = 0)) \<and>
   - 2 \<le> getExplorationScore nodeId m \<and> getExplorationScore nodeId m \<le> 2"
proof -
  have range: "- 2 \<le> (real i * 2 - real f * 2) / real (i + n + f) \<and>
               (real i * 2 - real f * 2) / real (i + n + f) \<le> 2"
    if "i + n + f > 0" for i n f :: nat
  proof -
    have pos: "0 < real (i + n + f)"
      using that by (simp only: of_nat_0_less_iff)
    have "- 2 * real (i + n + f) \<le> real i * 2 - real f * 2" by simp
    moreover have "real i * 2 - real f * 2 \<le> 2 * real (i + n + f)" by simp
    ultimately show ?thesis
      using pos by (simp only: pos_le_divide_eq pos_divide_le_eq)
  qed
  show ?thesis
    using range by (auto simp: getExplorationScore_def Let_def split: option.splits)
qed

theorem getExplorationScore_spec_witness:
  "getExplorationScore ''E'' starFeedback = 2 \<and>
   getExplorationScore ''B'' starFeedback = - 2 \<and>
   getExplorationScore ''C'' starFeedback = 0"
  using getExplorationScore_spec [of starFeedback "''E''"]
    getExplorationScore_spec [of starFeedback "''B''"]
    getExplorationScore_spec [of starFeedback "''C''"]
  by (simp add: starFeedback_def)

text \<open>
  C3, as the claim states it, fails: for a node id without a record \<^verbatim>\<open>handleFeedback\<close>
  throws instead of creating a record with counter 1.
\<close>

theorem handleFeedback_absent_counterexample:
  "handleFeedback [] emptySession ''form'' Insightful = Inl TypeError"
  by (simp add: handleFeedback_def emptySession_def)

text \<open>
  C3, amended.  \<^verbatim>\<open>handleFeedback\<close> succeeds exactly for the node ids that have a record:
  it then replaces that record by the one with the chosen counter incremented by 1 and
  leaves every other record, the active node and the mode as they were; for an id
  without a record it fails with a \<^verbatim>\<open>TypeError\<close>.
\<close>

theorem handleFeedback_total_on_records:
  "(explorationData s nodeId = None \<longrightarrow> handleFeedback links s nodeId ty = Inl TypeError) \<and>
   (\<forall>current. explorationData s nodeId = Some current \<longrightarrow>
      (\<exists>s'. handleFeedback links s nodeId ty = Inr s' \<and>
            explorationData s' = (explorationData s)(nodeId \<mapsto> increment ty current) \<and>
            activeNode s' = activeNode s \<and> cyberneticMode s' = cyberneticMode s)) \<and>
   insightful (increment Insightful current) = insightful current + 1 \<and>
   neutral (increment Neutral current) = neutral current + 1 \<and>
   familiar (increment Familiar current) = familiar current + 1"
  by (auto simp: handleFeedback_def Let_def split: option.splits)

theorem handleFeedback_total_on_records_witness:
  "explorationData freshSession ''form''
     = Some \<lparr>visits = 0, insightful = 0, neutral = 0, familiar = 0\<rparr> \<and>
   (\<exists>s'. handleFeedback [] freshSession ''form'' Insightful = Inr s' \<and>
         explorationData s' ''form''
           = Some \<lparr>visits = 0, insightful = 1, neutral = 0, familiar = 0\<rparr>) \<and>
   explorationData freshSession ''shape'' = None \<and>
   handleFeedback [] freshSession ''shape'' Insightful = Inl TypeError"
  using handleFeedback_total_on_records [of freshSession "''form''" "[]" Insightful]
    handleFeedback_total_on_records [of freshSession "''shape''" "[]" Insightful]
  by (auto simp: freshSession_def initialExploration_def)

section \<open>Properties of the layered traversal\<close>

declare collectPath.simps [simp del] bfsLayers.simps [simp del]

text \<open>
  C1.  On the diamond, the non-adaptive traversal returns the layers \<open>[A]\<close>, \<open>[B, C]\<close>
  and \<open>[D, D]\<close>: the node \<open>D\<close>, a successor of both nodes of layer 1, occurs twice in
  layer 2.
\<close>

theorem bfsLayers_diamond_duplicate:
  "getAdaptiveHierarchicalLayers ''A'' diamond Map.empty False =
     [\<lparr>level = 0, nodes = [''A'']\<rparr>, \<lparr>level = 1, nodes = [''B'', ''C'']\<rparr>,
      \<lparr>level = 2, nodes = [''D'', ''D'']\<rparr>]"
  by (simp add: getAdaptiveHierarchicalLayers_def diamond_def nextLevel_def outgoing_def
      collectPath.simps bfsLayers.simps)

lemma collectPath_acc: "collectPath links V L (pre @ acc) = pre @ collectPath links V L acc"
proof (induction links V L acc arbitrary: pre rule: collectPath.induct)
  case (1 links V L acc)
  let ?valid = "filter (\<lambda>i. i \<notin> V) L"
  show ?case
  proof (cases "L = [] \<or> ?valid = []")
    case True
    then show ?thesis
      by (subst collectPath.simps, subst (2) collectPath.simps) (auto simp: Let_def)
  next
    case False
    then have ne: "L \<noteq> []" "?valid \<noteq> []" by auto
    have a: "collectPath links V L (pre @ acc)
             = collectPath links (V \<union> set ?valid) (nextLevel links ?valid) (pre @ acc @ ?valid)"
      using ne by (subst collectPath.simps) (simp add: Let_def)
    have b: "collectPath links V L acc
             = collectPath links (V \<union> set ?valid) (nextLevel links ?valid) (acc @ ?valid)"
      using ne by (subst collectPath.simps) (simp add: Let_def)
    show ?thesis
      unfolding a b using "1.IH" [OF ne(1) refl ne(2)] .
  qed
qed

lemma bfsLayers_concat:
  "concat (map nodes (bfsLayers links V L lev acc))
     = concat (map nodes acc) @ collectPath links V L []"
proof (induction links V L lev acc rule: bfsLayers.induct)
  case (1 links V L lev acc)
  let ?valid = "filter (\<lambda>i. i \<notin> V) L"
  show ?case
  proof (cases "L = [] \<or> ?valid = []")
    case True
    then show ?thesis
      by (subst bfsLayers.simps, subst collectPath.simps) (auto simp: Let_def)
  next
    case False
    then have ne: "L \<noteq> []" "?valid \<noteq> []" by auto
    have a: "bfsLayers links V L lev acc
             = bfsLayers links (V \<union> set ?valid) (nextLevel links ?valid) (lev + 1)
                 (acc @ [\<lparr>level = lev, nodes = ?valid\<rparr>])"
      using ne by (subst bfsLayers.simps) (simp add: Let_def)
    have b: "collectPath links V L []
             = collectPath links (V \<union> set ?valid) (nextLevel links ?valid) (?valid @ [])"
      using ne by (subst collectPath.simps) (simp add: Let_def)
    show ?thesis
      unfolding a b collectPath_acc using "1.IH" [OF ne(1) refl ne(2)] by simp
  qed
qed

lemma collectPath_start: "\<exists>ys. collectPath links {} [s] [] = s # ys"
proof -
  have "collectPath links {} [s] [] = collectPath links {s} (nextLevel links [s]) ([s] @ [])"
    by (subst collectPath.simps) (simp add: Let_def)
  then show ?thesis
    unfolding collectPath_acc by simp
qed

lemma distribute_ordered:
  assumes "\<forall>L\<in>set layers. level L < li"
    and "\<forall>LA\<in>set layers. \<forall>LB\<in>set layers. \<forall>a\<in>set (nodes LA). \<forall>b\<in>set (nodes LB).
           level LB < level LA \<longrightarrow> b = s \<or> f a \<le> f b"
    and "\<forall>L\<in>set layers. \<forall>b\<in>set (nodes L). \<forall>a\<in>set (cur @ rest). b = s \<or> f a \<le> f b"
    and "sorted_wrt (\<lambda>a b. f b \<le> f a) (cur @ rest)"
    and "LA \<in> set (distribute n idx rest cur li layers)"
    and "LB \<in> set (distribute n idx rest cur li layers)"
    and "a \<in> set (nodes LA)" and "b \<in> set (nodes LB)" and "level LB < level LA"
  shows "b = s \<or> f a \<le> (f b :: real)"
  using assms
proof (induction rest arbitrary: idx cur li layers)
  case Nil
  then show ?case by simp
next
  case (Cons u rest)
  let ?pushed = "cur @ [u]"
  show ?case
  proof (cases "length ?pushed \<ge> 3 \<or> int idx = int n - 1")
    case True
    let ?layers = "layers @ [\<lparr>level = li, nodes = ?pushed\<rparr>]"
    have res: "distribute n idx (u # rest) cur li layers
               = distribute n (idx + 1) rest [] (li + 1) ?layers"
      using True by (simp add: Let_def)
    have srt: "sorted_wrt (\<lambda>a b. f b \<le> f a) (?pushed @ rest)"
      using Cons.prems(4) by simp
    show ?thesis
    proof (rule Cons.IH [where idx = "idx + 1" and cur = "[]" and li = "li + 1" and layers = ?layers])
      show "\<forall>L\<in>set ?layers. level L < li + 1"
        using Cons.prems(1) by auto
      show "\<forall>LA\<in>set ?layers. \<forall>LB\<in>set ?layers. \<forall>a\<in>set (nodes LA). \<forall>b\<in>set (nodes LB).
              level LB < level LA \<longrightarrow> b = s \<or> f a \<le> f b"
      proof (intro ballI impI)
        fix LA LB a b
        assume LA: "LA \<in> set ?layers" and LB: "LB \<in> set ?layers"
          and a: "a \<in> set (nodes LA)" and b: "b \<in> set (nodes LB)" and lt: "level LB < level LA"
        show "b = s \<or> f a \<le> f b"
        proof (cases "LA \<in> set layers")
          case inA: True
          show ?thesis
          proof (cases "LB \<in> set layers")
            case True
            with inA a b lt Cons.prems(2) show ?thesis by blast
          next
            case False
            with LB have "level LB = li" by auto
            with inA lt Cons.prems(1) show ?thesis by force
          qed
        next
          case False
          with LA have eqA: "LA = \<lparr>level = li, nodes = ?pushed\<rparr>" by auto
          show ?thesis
          proof (cases "LB \<in> set layers")
            case True
            have "a \<in> set (cur @ u # rest)" using a eqA by auto
            with True b Cons.prems(3) show ?thesis by blast
          next
            case False
            with LB have "level LB = li" by auto
            with eqA lt show ?thesis by simp
          qed
        qed
      qed
      show "\<forall>L\<in>set ?layers. \<forall>b\<in>set (nodes L). \<forall>a\<in>set ([] @ rest). b = s \<or> f a \<le> f b"
      proof (intro ballI)
        fix L b a
        assume L: "L \<in> set ?layers" and b: "b \<in> set (nodes L)" and a: "a \<in> set ([] @ rest)"
        show "b = s \<or> f a \<le> f b"
        proof (cases "L \<in> set layers")
          case True
          with b a Cons.prems(3) show ?thesis by auto
        next
          case False
          with L b have "b \<in> set ?pushed" by auto
          with a srt show ?thesis by (auto simp: sorted_wrt_append)
        qed
      qed
      show "sorted_wrt (\<lambda>a b. f b \<le> f a) ([] @ rest)"
        using srt by (simp add: sorted_wrt_append)
      show "LA \<in> set (distribute n (idx + 1) rest [] (li + 1) ?layers)"
        using Cons.prems(5) res by simp
      show "LB \<in> set (distribute n (idx + 1) rest [] (li + 1) ?layers)"
        using Cons.prems(6) res by simp
    qed (use Cons.prems in auto)
  next
    case False
    have res: "distribute n idx (u # rest) cur li layers
               = distribute n (idx + 1) rest ?pushed li layers"
      using False by (simp add: Let_def)
    show ?thesis
    proof (rule Cons.IH [where idx = "idx + 1" and cur = ?pushed and li = li and layers = layers])
      show "LA \<in> set (distribute n (idx + 1) rest ?pushed li layers)"
        using Cons.prems(5) res by simp
      show "LB \<in> set (distribute n (idx + 1) rest ?pushed li layers)"
        using Cons.prems(6) res by simp
    qed (use Cons.prems in auto)
  qed
qed

lemma sortByScore_sorted:
  "sorted_wrt (\<lambda>a b. g b \<le> (g a :: real)) (map fst (sortByScore (map (\<lambda>i. (i, g i)) ids)))"
proof -
  let ?ps = "sortByScore (map (\<lambda>i. (i, g i)) ids)"
  have "sorted (map (\<lambda>p. - snd p) ?ps)"
    unfolding sortByScore_def by (rule sorted_sort_key)
  then have s1: "sorted_wrt (\<lambda>p q. - snd p \<le> - snd q) ?ps"
    by (simp add: sorted_map)
  have mem: "\<forall>p\<in>set ?ps. snd p = g (fst p)"
    unfolding sortByScore_def by auto
  have "sorted_wrt (\<lambda>p q. g (fst q) \<le> g (fst p)) ?ps"
    by (rule sorted_wrt_mono_rel [OF _ s1]) (use mem in auto)
  then show ?thesis by (simp add: sorted_wrt_map)
qed

text \<open>
  C8.  In adaptive mode, if \<open>A\<close> and \<open>B\<close> are not the start node and the score of \<open>A\<close>
  is greater than the score of \<open>B\<close>, then every layer that holds \<open>A\<close> has a level less
  than or equal to that of every layer that holds \<open>B\<close>.  (Nodes without feedback have
  score 0 and are covered as well.)
\<close>

theorem adaptive_monotone:
  assumes LA: "LA \<in> set (getAdaptiveHierarchicalLayers startId links m True)"
    and LB: "LB \<in> set (getAdaptiveHierarchicalLayers startId links m True)"
    and A: "A \<in> set (nodes LA)" and B: "B \<in> set (nodes LB)"
    and nA: "A \<noteq> startId" and nB: "B \<noteq> startId"
    and sc: "getExplorationScore A m > getExplorationScore B m"
  shows "level LA \<le> level LB"
proof (cases "length (collectPath links {} [startId] []) > 1")
  case True
  obtain ys where ys: "collectPath links {} [startId] [] = startId # ys"
    using collectPath_start by blast
  let ?g = "\<lambda>i. getExplorationScore i m"
  let ?xs = "map fst (sortByScore (map (\<lambda>i. (i, ?g i)) ys))"
  let ?R = "distribute (length ?xs) 0 ?xs [] 1 [\<lparr>level = 0, nodes = [startId]\<rparr>]"
  have res: "getAdaptiveHierarchicalLayers startId links m True = ?R"
    using True ys by (simp add: getAdaptiveHierarchicalLayers_def Let_def)
  show ?thesis
  proof (rule ccontr)
    assume "\<not> level LA \<le> level LB"
    then have lt: "level LB < level LA" by simp
    have "B = startId \<or> ?g A \<le> ?g B"
    proof (rule distribute_ordered [where layers = "[\<lparr>level = 0, nodes = [startId]\<rparr>]"
          and li = 1 and cur = "[]" and rest = ?xs and n = "length ?xs" and idx = 0
          and LA = LA and LB = LB])
      show "sorted_wrt (\<lambda>a b. ?g b \<le> ?g a) ([] @ ?xs)"
        using sortByScore_sorted [of ?g ys] by simp
      show "LA \<in> set ?R" using LA res by simp
      show "LB \<in> set ?R" using LB res by simp
    qed (use A B lt in auto)
    with nB sc show False by simp
  qed
next
  case False
  obtain ys where ys: "collectPath links {} [startId] [] = startId # ys"
    using collectPath_start by blast
  with False have one: "collectPath links {} [startId] [] = [startId]" by simp
  have res: "getAdaptiveHierarchicalLayers startId links m True = bfsLayers links {} [startId] 0 []"
    using False by (simp add: getAdaptiveHierarchicalLayers_def Let_def)
  have "A \<in> set (concat (map nodes (bfsLayers links {} [startId] 0 [])))"
    using LA A res by auto
  then have "A = startId"
    unfolding bfsLayers_concat one by simp
  with nA show ?thesis by simp
qed

theorem adaptive_monotone_witness:
  "getAdaptiveHierarchicalLayers ''A'' star starFeedback True =
     [\<lparr>level = 0, nodes = [''A'']\<rparr>, \<lparr>level = 1, nodes = [''E'', ''C'', ''D'']\<rparr>,
      \<lparr>level = 2, nodes = [''B'']\<rparr>] \<and>
   getExplorationScore ''E'' starFeedback > getExplorationScore ''B'' starFeedback \<and>
   level \<lparr>level = 1, nodes = [''E'', ''C'', ''D'']\<rparr> \<le> level \<lparr>level = 2, nodes = [''B'']\<rparr>"
proof -
  have layers: "getAdaptiveHierarchicalLayers ''A'' star starFeedback True =
     [\<lparr>level = 0, nodes = [''A'']\<rparr>, \<lparr>level = 1, nodes = [''E'', ''C'', ''D'']\<rparr>,
      \<lparr>level = 2, nodes = [''B'']\<rparr>]"
    by (simp add: getAdaptiveHierarchicalLayers_def star_def starFeedback_def collectPath.simps
        nextLevel_def outgoing_def sortByScore_def getExplorationScore_def)
  have sc: "getExplorationScore ''E'' starFeedback > getExplorationScore ''B'' starFeedback"
    by (simp add: getExplorationScore_def starFeedback_def)
  have "level \<lparr>level = 1, nodes = [''E'', ''C'', ''D'']\<rparr> \<le> level \<lparr>level = 2, nodes = [''B'']\<rparr>"
    by (rule adaptive_monotone [where startId = "''A''" and links = star and m = starFeedback
          and A = "''E''" and B = "''B''"])
       (simp_all add: layers sc)
  with layers sc show ?thesis by blast
qed

section \<open>Properties of the flat traversal\<close>

lemma outgoing_edges: "w \<in> set (outgoing links v) \<longleftrightarrow> (v, w) \<in> edges links"
  by (auto simp: outgoing_def edges_def image_iff)

lemma closed_contains_reachable:
  assumes s: "s \<in> V" and cl: "\<And>v w. v \<in> V \<Longrightarrow> (v, w) \<in> E \<Longrightarrow> w \<in> V"
  shows "E\<^sup>* `` {s} \<subseteq> V"
proof
  fix w assume "w \<in> E\<^sup>* `` {s}"
  then have "(s, w) \<in> E\<^sup>*" by simp
  then show "w \<in> V"
    by (induction rule: rtrancl_induct) (auto intro: s cl)
qed

lemma bfsLoop_invariant:
  assumes "set path = visited" and "distinct path"
    and "set queue \<subseteq> reachable links s" and "visited \<subseteq> reachable links s"
    and "\<And>v w. v \<in> visited \<Longrightarrow> (v, w) \<in> edges links \<Longrightarrow> w \<in> visited \<union> set queue"
    and "s \<in> visited \<union> set queue"
  shows "set (bfsLoop links visited queue path) = reachable links s \<and>
         distinct (bfsLoop links visited queue path) \<and>
         (\<exists>ys. bfsLoop links visited queue path = path @ ys)"
  using assms
proof (induction links visited queue path rule: bfsLoop.induct)
  case (1 links visited path)
  have "reachable links s \<subseteq> visited"
    unfolding reachable_def
    using "1.prems"(5,6) by (intro closed_contains_reachable) auto
  with "1.prems" show ?case by auto
next
  case (2 links visited current queue path)
  show ?case
  proof (cases "current \<in> visited")
    case True
    have "set (bfsLoop links visited queue path) = reachable links s \<and>
          distinct (bfsLoop links visited queue path) \<and>
          (\<exists>ys. bfsLoop links visited queue path = path @ ys)"
    proof (rule "2.IH"(1) [OF True])
      show "set path = visited" "distinct path" "visited \<subseteq> reachable links s"
        using "2.prems" by auto
      show "set queue \<subseteq> reachable links s" using "2.prems"(3) by auto
      show "w \<in> visited \<union> set queue" if "v \<in> visited" "(v, w) \<in> edges links" for v w
        using "2.prems"(5) [OF that] True by auto
      show "s \<in> visited \<union> set queue" using "2.prems"(6) True by auto
    qed
    with True show ?thesis by simp
  next
    case False
    let ?vis = "insert current visited"
    let ?q = "queue @ filter (\<lambda>n. n \<notin> ?vis) (outgoing links current)"
    have cur: "current \<in> reachable links s" using "2.prems"(3) by auto
    have succ: "w \<in> reachable links s" if "(current, w) \<in> edges links" for w
      using cur that unfolding reachable_def by (auto intro: rtrancl_into_rtrancl)
    have "set (bfsLoop links ?vis ?q (path @ [current])) = reachable links s \<and>
          distinct (bfsLoop links ?vis ?q (path @ [current])) \<and>
          (\<exists>ys. bfsLoop links ?vis ?q (path @ [current]) = (path @ [current]) @ ys)"
    proof (rule "2.IH"(2) [OF False])
      show "set (path @ [current]) = ?vis" using "2.prems"(1) by auto
      show "distinct (path @ [current])" using "2.prems"(1,2) False by auto
      show "set ?q \<subseteq> reachable links s"
        using "2.prems"(3) succ by (auto simp: outgoing_edges)
      show "?vis \<subseteq> reachable links s" using "2.prems"(4) cur by auto
      show "w \<in> ?vis \<union> set ?q" if "v \<in> ?vis" "(v, w) \<in> edges links" for v w
      proof (cases "v = current")
        case True
        with that show ?thesis by (auto simp: outgoing_edges)
      next
        case False
        with that have "v \<in> visited" by simp
        from "2.prems"(5) [OF this that(2)] show ?thesis by auto
      qed
      show "s \<in> ?vis \<union> set ?q" using "2.prems"(6) by auto
    qed
    with False show ?thesis by auto
  qed
qed

text \<open>
  C9.  \<^verbatim>\<open>bfsPath\<close> returns a list that starts with the start id, has no duplicates, and
  whose elements are exactly the ids reachable from the start along the links.
\<close>

theorem bfsPath_reachable:
  "bfsPath startId links \<noteq> [] \<and> hd (bfsPath startId links) = startId \<and>
   distinct (bfsPath startId links) \<and>
   set (bfsPath startId links) = reachable links startId"
proof -
  let ?q = "filter (\<lambda>n. n \<notin> {startId}) (outgoing links startId)"
  have unf: "bfsPath startId links = bfsLoop links {startId} ?q [startId]"
    by (simp add: bfsPath_def)
  have s: "startId \<in> reachable links startId" by (simp add: reachable_def)
  have "set (bfsLoop links {startId} ?q [startId]) = reachable links startId \<and>
        distinct (bfsLoop links {startId} ?q [startId]) \<and>
        (\<exists>ys. bfsLoop links {startId} ?q [startId] = [startId] @ ys)"
  proof (rule bfsLoop_invariant)
    show "set ?q \<subseteq> reachable links startId"
      unfolding reachable_def by (auto simp: outgoing_edges)
    show "w \<in> {startId} \<union> set ?q" if "v \<in> {startId}" "(v, w) \<in> edges links" for v w
      using that by (auto simp: outgoing_edges)
  qed (use s in auto)
  with unf show ?thesis by auto
qed

section \<open>Properties of the random link generation\<close>

subsection \<open>Rules for the loop combinator\<close>

lemma whileLoop_rule:
  assumes res: "whileLoop b c s = Some t" and init: "I s"
    and step: "\<And>u. I u \<Longrightarrow> b u \<Longrightarrow> I (c u)"
  shows "I t \<and> \<not> b t"
proof -
  have "b = b \<longrightarrow> c = c \<longrightarrow> I s \<longrightarrow> I t \<and> \<not> b t"
  proof (rule whileLoop.raw_induct
      [where P = "\<lambda>b' c' s' t'. b' = b \<longrightarrow> c' = c \<longrightarrow> I s' \<longrightarrow> I t' \<and> \<not> b t'", OF _ res])
    fix w :: "('a \<Rightarrow> bool) \<Rightarrow> ('a \<Rightarrow> 'a) \<Rightarrow> 'a \<Rightarrow> 'a option" and b' c' s' t'
    assume IH: "\<And>b'' c'' s'' y. w b'' c'' s'' = Some y
                  \<Longrightarrow> b'' = b \<longrightarrow> c'' = c \<longrightarrow> I s'' \<longrightarrow> I y \<and> \<not> b y"
      and unf: "(if b' s' then w b' c' (c' s') else Some s') = Some t'"
    show "b' = b \<longrightarrow> c' = c \<longrightarrow> I s' \<longrightarrow> I t' \<and> \<not> b t'"
    proof (intro impI)
      assume eq: "b' = b" "c' = c" and inv: "I s'"
      show "I t' \<and> \<not> b t'"
      proof (cases "b s'")
        case True
        with unf eq have "w b c (c s') = Some t'" by simp
        from IH [OF this] step [OF inv True] show ?thesis by simp
      next
        case False
        with unf eq have "t' = s'" by simp
        with False inv show ?thesis by simp
      qed
    qed
  qed
  with init show ?thesis by simp
qed

lemma whileLoop_diverges:
  assumes init: "I s" and step: "\<And>u. I u \<Longrightarrow> b u \<and> I (c u)"
  shows "whileLoop b c s = None"
proof (cases "whileLoop b c s")
  case None
  then show ?thesis .
next
  case (Some t)
  have "b = b \<longrightarrow> c = c \<longrightarrow> \<not> I s"
  proof (rule whileLoop.raw_induct
      [where P = "\<lambda>b' c' s' t'. b' = b \<longrightarrow> c' = c \<longrightarrow> \<not> I s'", OF _ Some])
    fix w :: "('a \<Rightarrow> bool) \<Rightarrow> ('a \<Rightarrow> 'a) \<Rightarrow> 'a \<Rightarrow> 'a option" and b' c' s' t'
    assume IH: "\<And>b'' c'' s'' y. w b'' c'' s'' = Some y \<Longrightarrow> b'' = b \<longrightarrow> c'' = c \<longrightarrow> \<not> I s''"
      and unf: "(if b' s' then w b' c' (c' s') else Some s') = Some t'"
    show "b' = b \<longrightarrow> c' = c \<longrightarrow> \<not> I s'"
    proof (intro impI notI)
      assume eq: "b' = b" "c' = c" and inv: "I s'"
      from step [OF inv] have "b s'" "I (c s')" by simp_all
      with unf eq have "w b c (c s') = Some t'" by simp
      from IH [OF this] \<open>I (c s')\<close> show False by simp
    qed
  qed
  with init show ?thesis by simp
qed

lemma whileLoop_terminates:
  assumes "\<And>u. b u \<Longrightarrow> m (c u) < (m u :: nat)"
  shows "\<exists>t. whileLoop b c s = Some t"
proof (induction "m s" arbitrary: s rule: less_induct)
  case less
  show ?case
  proof (cases "b s")
    case True
    from less [OF assms [OF True]] obtain t where "whileLoop b c (c s) = Some t" by blast
    with True show ?thesis by (subst whileLoop.simps) simp
  next
    case False
    then show ?thesis by (subst whileLoop.simps) simp
  qed
qed

subsection \<open>The invariant through the three passes\<close>

lemma grows_refl: "grows g g"
  by (simp add: grows_def)

lemma grows_trans: "grows g g' \<Longrightarrow> grows g' g'' \<Longrightarrow> grows g g''"
  unfolding grows_def by (meson le_trans)

lemma tryLink_genInv: "genInv g \<Longrightarrow> genInv (tryLink s t g)"
  unfolding genInv_def tryLink_def
  by (auto simp: getCount_def outDegree_def inDegree_def image_iff)

lemma tryLink_grows: "grows g (tryLink s t g)"
  unfolding grows_def tryLink_def by (simp add: outDegree_def inDegree_def)

lemma genInv_consumed: "genInv (g\<lparr>consumed := k\<rparr>) = genInv g"
  by (simp add: genInv_def)

lemma grows_consumed: "grows g (g'\<lparr>consumed := k\<rparr>) = grows g g'"
  by (simp add: grows_def)

lemma initCount_fold:
  "newLinks (fold initCount ids g) = newLinks g \<and>
   usedPairs (fold initCount ids g) = usedPairs g \<and>
   ((\<forall>k. getCount (outgoingCount g) k = 0) \<longrightarrow>
      (\<forall>k. getCount (outgoingCount (fold initCount ids g)) k = 0)) \<and>
   ((\<forall>k. getCount (incomingCount g) k = 0) \<longrightarrow>
      (\<forall>k. getCount (incomingCount (fold initCount ids g)) k = 0))"
proof (induction ids arbitrary: g)
  case Nil
  show ?case by simp
next
  case (Cons i ids)
  have "\<forall>k. getCount (outgoingCount (initCount i g)) k = 0"
    if "\<forall>k. getCount (outgoingCount g) k = 0"
    using that by (simp add: initCount_def getCount_def)
  moreover have "\<forall>k. getCount (incomingCount (initCount i g)) k = 0"
    if "\<forall>k. getCount (incomingCount g) k = 0"
    using that by (simp add: initCount_def getCount_def)
  moreover have "newLinks (initCount i g) = newLinks g" "usedPairs (initCount i g) = usedPairs g"
    by (simp_all add: initCount_def)
  ultimately show ?case
    using Cons.IH [of "initCount i g"] by simp
qed

lemma initGen_genInv: "genInv (initGen ids)"
  using initCount_fold [of ids "\<lparr>newLinks = [], usedPairs = {}, outgoingCount = Map.empty,
        incomingCount = Map.empty, consumed = 0\<rparr>"]
  by (simp add: genInv_def initGen_def getCount_def outDegree_def inDegree_def)

lemma outgoingStep_keeps: "genInv g \<Longrightarrow> genInv (outgoingStep rnd ids v g)"
  and outgoingStep_grows: "grows g u \<Longrightarrow> grows g (outgoingStep rnd ids v u)"
  unfolding outgoingStep_def
  by (simp_all add: tryLink_genInv genInv_consumed
      grows_trans [OF _ tryLink_grows] grows_consumed)

lemma incomingStep_keeps: "genInv g \<Longrightarrow> genInv (incomingStep rnd ids v g)"
  and incomingStep_grows: "grows g u \<Longrightarrow> grows g (incomingStep rnd ids v u)"
  unfolding incomingStep_def
  by (simp_all add: tryLink_genInv genInv_consumed
      grows_trans [OF _ tryLink_grows] grows_consumed)

lemma firstPass_loops:
  assumes "forOf (\<lambda>sourceNode.
              whileLoop (\<lambda>g. getCount (outgoingCount g) (Some sourceNode) < minConnectionsPerNode)
                (outgoingStep rnd ids sourceNode)) js g = Some g'"
    and "genInv g"
  shows "genInv g' \<and> grows g g' \<and> (\<forall>i\<in>set js. 3 \<le> outDegree (newLinks g') (Some i))"
  using assms
proof (induction js arbitrary: g)
  case Nil
  then show ?case by (simp add: grows_refl)
next
  case (Cons j js)
  let ?b = "\<lambda>g. getCount (outgoingCount g) (Some j) < minConnectionsPerNode"
  from Cons.prems(1) obtain g1 where
    loop: "whileLoop ?b (outgoingStep rnd ids j) g = Some g1"
    and rest: "forOf (\<lambda>sourceNode.
              whileLoop (\<lambda>g. getCount (outgoingCount g) (Some sourceNode) < minConnectionsPerNode)
                (outgoingStep rnd ids sourceNode)) js g1 = Some g'"
    by (auto split: option.splits)
  have "(genInv g1 \<and> grows g g1) \<and> \<not> ?b g1"
    by (rule whileLoop_rule [OF loop])
       (simp_all add: Cons.prems(2) grows_refl outgoingStep_keeps outgoingStep_grows)
  then have inv1: "genInv g1" and gr1: "grows g g1" and nb: "\<not> ?b g1"
    by simp_all
  have "getCount (outgoingCount g1) (Some j) = outDegree (newLinks g1) (Some j)"
    using inv1 by (simp add: genInv_def)
  with nb have "3 \<le> outDegree (newLinks g1) (Some j)"
    by (simp add: minConnectionsPerNode_def)
  note g1 = inv1 gr1 this
  from Cons.IH [OF rest g1(1)] have g': "genInv g'" "grows g1 g'"
    "\<forall>i\<in>set js. 3 \<le> outDegree (newLinks g') (Some i)"
    by simp_all
  have "3 \<le> outDegree (newLinks g') (Some j)"
    using g1(3) g'(2) unfolding grows_def by (meson le_trans)
  with g' g1(2) show ?case
    by (auto intro: grows_trans)
qed

lemma secondPass_loops:
  assumes "forOf (\<lambda>targetNode.
              whileLoop (\<lambda>g. getCount (incomingCount g) (Some targetNode) < minConnectionsPerNode)
                (incomingStep rnd ids targetNode)) js g = Some g'"
    and "genInv g"
  shows "genInv g' \<and> grows g g' \<and> (\<forall>i\<in>set js. 3 \<le> inDegree (newLinks g') (Some i))"
  using assms
proof (induction js arbitrary: g)
  case Nil
  then show ?case by (simp add: grows_refl)
next
  case (Cons j js)
  let ?b = "\<lambda>g. getCount (incomingCount g) (Some j) < minConnectionsPerNode"
  from Cons.prems(1) obtain g1 where
    loop: "whileLoop ?b (incomingStep rnd ids j) g = Some g1"
    and rest: "forOf (\<lambda>targetNode.
              whileLoop (\<lambda>g. getCount (incomingCount g) (Some targetNode) < minConnectionsPerNode)
                (incomingStep rnd ids targetNode)) js g1 = Some g'"
    by (auto split: option.splits)
  have "(genInv g1 \<and> grows g g1) \<and> \<not> ?b g1"
    by (rule whileLoop_rule [OF loop])
       (simp_all add: Cons.prems(2) grows_refl incomingStep_keeps incomingStep_grows)
  then have inv1: "genInv g1" and gr1: "grows g g1" and nb: "\<not> ?b g1"
    by simp_all
  have "getCount (incomingCount g1) (Some j) = inDegree (newLinks g1) (Some j)"
    using inv1 by (simp add: genInv_def)
  with nb have "3 \<le> inDegree (newLinks g1) (Some j)"
    by (simp add: minConnectionsPerNode_def)
  note g1 = inv1 gr1 this
  from Cons.IH [OF rest g1(1)] have g': "genInv g'" "grows g1 g'"
    "\<forall>i\<in>set js. 3 \<le> inDegree (newLinks g') (Some i)"
    by simp_all
  have "3 \<le> inDegree (newLinks g') (Some j)"
    using g1(3) g'(2) unfolding grows_def by (meson le_trans)
  with g' g1(2) show ?case
    by (auto intro: grows_trans)
qed

lemma thirdPass_keeps:
  assumes "thirdPass rnd ids n g = Some (g', a)" and "genInv g"
  shows "genInv g' \<and> grows g g'"
proof -
  let ?I = "\<lambda>(u, k :: nat). genInv u \<and> grows g u"
  have "?I (g', a) \<and> \<not> (\<lambda>(g, attempts). length (newLinks g) < n \<and> attempts < n * 10) (g', a)"
  proof (rule whileLoop_rule [where I = ?I])
    show "whileLoop (\<lambda>(g, attempts). length (newLinks g) < n \<and> attempts < n * 10)
            (topUpStep rnd ids) (g, 0) = Some (g', a)"
      using assms(1) by (simp add: thirdPass_def)
    show "?I (g, 0)" using assms(2) by (simp add: grows_refl)
    show "?I (topUpStep rnd ids u)" if "?I u" for u
      using that
      by (cases u) (simp add: topUpStep_def tryLink_genInv genInv_consumed
          grows_trans [OF _ tryLink_grows] grows_consumed)
  qed
  then show ?thesis by simp
qed

text \<open>
  C5.  Every link list that \<^verbatim>\<open>randomizeConnections\<close> returns has no self-loop, holds no
  (source, target) pair twice, and gives every id of the node list at least 3 outgoing
  and at least 3 incoming links.
\<close>

theorem randomizeConnections_invariants:
  assumes "randomizeConnections rnd nodeIds targetNumLinks = Some ls"
  shows "(\<forall>l\<in>set ls. source l \<noteq> target l) \<and>
         distinct (map (\<lambda>l. (source l, target l)) ls) \<and>
         (\<forall>i\<in>set nodeIds. 3 \<le> outDegree ls (Some i) \<and> 3 \<le> inDegree ls (Some i))"
proof -
  from assms obtain g1 g2 g3 a where
    p1: "firstPass rnd nodeIds (initGen nodeIds) = Some g1"
    and p2: "secondPass rnd nodeIds g1 = Some g2"
    and p3: "thirdPass rnd nodeIds targetNumLinks g2 = Some (g3, a)"
    and ls: "ls = newLinks g3"
    by (auto simp: randomizeConnections_def split: option.splits)
  have r1: "genInv g1" "\<forall>i\<in>set nodeIds. 3 \<le> outDegree (newLinks g1) (Some i)"
    using firstPass_loops [OF p1 [unfolded firstPass_def] initGen_genInv] by simp_all
  have r2: "genInv g2" "grows g1 g2" "\<forall>i\<in>set nodeIds. 3 \<le> inDegree (newLinks g2) (Some i)"
    using secondPass_loops [OF p2 [unfolded secondPass_def] r1(1)] by simp_all
  have r3: "genInv g3" "grows g2 g3"
    using thirdPass_keeps [OF p3 r2(1)] by simp_all
  have out: "3 \<le> outDegree ls (Some i)" if "i \<in> set nodeIds" for i
  proof -
    have "3 \<le> outDegree (newLinks g1) (Some i)" using r1(2) that by simp
    also have "\<dots> \<le> outDegree (newLinks g2) (Some i)" using r2(2) by (simp add: grows_def)
    also have "\<dots> \<le> outDegree (newLinks g3) (Some i)" using r3(2) by (simp add: grows_def)
    finally show ?thesis by (simp add: ls)
  qed
  have inn: "3 \<le> inDegree ls (Some i)" if "i \<in> set nodeIds" for i
  proof -
    have "3 \<le> inDegree (newLinks g2) (Some i)" using r2(3) that by simp
    also have "\<dots> \<le> inDegree (newLinks g3) (Some i)" using r3(2) by (simp add: grows_def)
    finally show ?thesis by (simp add: ls)
  qed
  from r3(1) out inn show ?thesis
    by (simp add: genInv_def ls)
qed

text \<open>A run that returns: twelve draws build the complete graph on four nodes.\<close>

lemma lucky_run: "randomizeConnections luckySource fourIds 12 = Some completeLinks"
  by (simp add: randomizeConnections_def firstPass_def secondPass_def thirdPass_def
      initGen_def initCount_def fourIds_def luckySource_def listSource_def completeLinks_def mkLink_def
      whileLoop.simps outgoingStep_def incomingStep_def topUpStep_def tryLink_def pick_def
      arrayAt_def pairKey_def jsString_def getCount_def minConnectionsPerNode_def)

theorem randomizeConnections_invariants_witness:
  "randomizeConnections luckySource fourIds 12 = Some completeLinks \<and>
   distinct (map (\<lambda>l. (source l, target l)) completeLinks) \<and>
   source (hd completeLinks) \<noteq> target (hd completeLinks) \<and>
   3 \<le> outDegree completeLinks (Some ''emotion'') \<and>
   3 \<le> inDegree completeLinks (Some ''form'')"
proof -
  have "hd completeLinks \<in> set completeLinks" "''emotion'' \<in> set fourIds" "''form'' \<in> set fourIds"
    by (simp_all add: completeLinks_def fourIds_def)
  with randomizeConnections_invariants [OF lucky_run] lucky_run show ?thesis
    by blast
qed

text \<open>
  With a single node id the first loop can add at most the link to \<^verbatim>\<open>undefined\<close> and never
  reaches three outgoing links, whatever the random source returns.
\<close>

lemma single_node_diverges: "randomizeConnections rnd [i] n = None"
proof -
  let ?b = "\<lambda>g :: gen. getCount (outgoingCount g) (Some i) < minConnectionsPerNode"
  let ?I = "\<lambda>g :: gen. getCount (outgoingCount g) (Some i) = 0 \<or>
                 (getCount (outgoingCount g) (Some i) = 1 \<and> pairKey (Some i) None \<in> usedPairs g)"
  have pick: "pick rnd [i] k = Some i \<or> pick rnd [i] k = None" for k
    by (simp add: pick_def arrayAt_def)
  have self: "tryLink (Some i) (Some i) g = g" for g :: gen
    by (simp add: tryLink_def)
  have undef: "?I (tryLink (Some i) None g)" if "?I g" for g :: gen
  proof (cases "pairKey (Some i) None \<in> usedPairs g")
    case True
    with that show ?thesis by (simp add: tryLink_def)
  next
    case False
    with that have "getCount (outgoingCount g) (Some i) = 0" by blast
    with False show ?thesis by (simp add: tryLink_def getCount_def)
  qed
  have "whileLoop ?b (outgoingStep rnd [i] i) (initGen [i]) = None"
  proof (rule whileLoop_diverges [where I = ?I])
    show "?I (initGen [i])"
      by (simp add: initGen_def initCount_def getCount_def)
    fix u :: gen assume u: "?I u"
    then have b: "?b u" by (auto simp: minConnectionsPerNode_def)
    have u': "?I (u\<lparr>consumed := consumed u + 1\<rparr>)" using u by simp
    have "?I (outgoingStep rnd [i] i u)"
      unfolding outgoingStep_def
      using pick [of "consumed u"] undef [OF u'] u' by (auto simp only: self)
    with b show "?b u \<and> ?I (outgoingStep rnd [i] i u)" by blast
  qed
  then show ?thesis
    by (simp add: randomizeConnections_def firstPass_def)
qed

text \<open>
  C4, as the claim states it, fails: with four node ids and a random source that always
  returns 0, the first minimum-degree loop draws the self-loop of the first node for
  ever, and \<^verbatim>\<open>randomizeConnections\<close> does not return; with a single node id it does not
  return either, even with draws that complete the passes on four nodes.
\<close>

theorem randomizeConnections_stuck_counterexample:
  "randomizeConnections stuckSource fourIds 12 = None \<and>
   randomizeConnections luckySource [''form''] 12 = None"
proof -
  let ?b = "\<lambda>g. getCount (outgoingCount g) (Some ''form'') < minConnectionsPerNode"
  have pick: "pick stuckSource fourIds k = Some ''form''" for k
    by (simp add: pick_def stuckSource_def listSource_def fourIds_def arrayAt_def)
  have "whileLoop ?b (outgoingStep stuckSource fourIds ''form'') (initGen fourIds) = None"
  proof (rule whileLoop_diverges [where I = "\<lambda>g. getCount (outgoingCount g) (Some ''form'') = 0"])
    show "getCount (outgoingCount (initGen fourIds)) (Some ''form'') = 0"
      by (simp add: initGen_def initCount_def fourIds_def getCount_def)
    show "?b u \<and> getCount (outgoingCount (outgoingStep stuckSource fourIds ''form'' u)) (Some ''form'') = 0"
      if "getCount (outgoingCount u) (Some ''form'') = 0" for u
      using that by (simp add: outgoingStep_def pick tryLink_def minConnectionsPerNode_def)
  qed
  then have "randomizeConnections stuckSource fourIds 12 = None"
    by (simp add: randomizeConnections_def firstPass_def fourIds_def)
  with single_node_diverges [of luckySource "''form''" 12] show ?thesis
    by simp
qed

lemma tryLink_consumed: "consumed (tryLink s t g) = consumed g"
  by (simp add: tryLink_def)

text \<open>
  C4, amended.  The top-up pass returns from every state and for every random source,
  after at most \<open>targetNumLinks * 10\<close> attempts of two draws each;
  \<^verbatim>\<open>randomizeConnections\<close> returns exactly when its two minimum-degree passes return.
\<close>

theorem thirdPass_bounded:
  "(\<exists>g' a. thirdPass rnd nodeIds targetNumLinks g = Some (g', a) \<and>
           a \<le> targetNumLinks * 10 \<and> consumed g' = consumed g + 2 * a) \<and>
   ((\<exists>ls. randomizeConnections rnd nodeIds targetNumLinks = Some ls) \<longleftrightarrow>
    (\<exists>g1 g2. firstPass rnd nodeIds (initGen nodeIds) = Some g1 \<and>
             secondPass rnd nodeIds g1 = Some g2))"
proof -
  let ?b = "\<lambda>(g, attempts). length (newLinks g) < targetNumLinks \<and> attempts < targetNumLinks * 10"
  have total: "\<exists>r. thirdPass rnd nodeIds targetNumLinks h = Some r" for h
    unfolding thirdPass_def Let_def
    by (rule whileLoop_terminates [where m = "\<lambda>(g, attempts). targetNumLinks * 10 - attempts"])
       (auto simp: topUpStep_def)
  then obtain g' a where res: "thirdPass rnd nodeIds targetNumLinks g = Some (g', a)"
    by (metis surj_pair)
  let ?I = "\<lambda>(u, k). k \<le> targetNumLinks * 10 \<and> consumed u = consumed g + 2 * k"
  have "?I (g', a) \<and> \<not> ?b (g', a)"
  proof (rule whileLoop_rule [where I = ?I])
    show "whileLoop ?b (topUpStep rnd nodeIds) (g, 0) = Some (g', a)"
      using res by (simp add: thirdPass_def)
    show "?I (g, 0)" by simp
    show "?I (topUpStep rnd nodeIds u)" if "?I u" "?b u" for u
      using that by (cases u) (simp add: topUpStep_def tryLink_consumed)
  qed
  with res have first: "\<exists>g' a. thirdPass rnd nodeIds targetNumLinks g = Some (g', a) \<and>
           a \<le> targetNumLinks * 10 \<and> consumed g' = consumed g + 2 * a"
    by auto
  have second: "(\<exists>ls. randomizeConnections rnd nodeIds targetNumLinks = Some ls) \<longleftrightarrow>
    (\<exists>g1 g2. firstPass rnd nodeIds (initGen nodeIds) = Some g1 \<and>
             secondPass rnd nodeIds g1 = Some g2)"
  proof
    assume "\<exists>ls. randomizeConnections rnd nodeIds targetNumLinks = Some ls"
    then show "\<exists>g1 g2. firstPass rnd nodeIds (initGen nodeIds) = Some g1 \<and>
             secondPass rnd nodeIds g1 = Some g2"
      by (auto simp: randomizeConnections_def split: option.splits)
  next
    assume "\<exists>g1 g2. firstPass rnd nodeIds (initGen nodeIds) = Some g1 \<and>
             secondPass rnd nodeIds g1 = Some g2"
    then obtain g1 g2 where p: "firstPass rnd nodeIds (initGen nodeIds) = Some g1"
      "secondPass rnd nodeIds g1 = Some g2" by blast
    from total [of g2] obtain g3 k where "thirdPass rnd nodeIds targetNumLinks g2 = Some (g3, k)"
      by (metis surj_pair)
    with p show "\<exists>ls. randomizeConnections rnd nodeIds targetNumLinks = Some ls"
      by (simp add: randomizeConnections_def)
  qed
  from first second show ?thesis by blast
qed

text \<open>A run of the top-up pass that stops at the cap: ten attempts, no link added.\<close>

lemma capped_run:
  "thirdPass stuckSource fourIds 1 (initGen fourIds)
     = Some ((initGen fourIds)\<lparr>consumed := 20\<rparr>, 10)"
  by (simp add: thirdPass_def whileLoop.simps topUpStep_def tryLink_def pick_def arrayAt_def
      stuckSource_def listSource_def fourIds_def initGen_def initCount_def)

theorem thirdPass_bounded_witness:
  "thirdPass stuckSource fourIds 1 (initGen fourIds)
     = Some ((initGen fourIds)\<lparr>consumed := 20\<rparr>, 10) \<and>
   (\<exists>g1 g2. firstPass luckySource fourIds (initGen fourIds) = Some g1 \<and>
            secondPass luckySource fourIds g1 = Some g2) \<and>
   randomizeConnections luckySource fourIds 12 = Some completeLinks"
  using thirdPass_bounded [of stuckSource fourIds 1 "initGen fourIds"]
    thirdPass_bounded [of luckySource fourIds 12 "initGen fourIds"]
    capped_run lucky_run
  by simp

section \<open>Properties of the force-directed layout\<close>

subsection \<open>The keys of the position map are invariant\<close>

lemma keys_mutate: "map fst (mutate k f ps) = map fst ps"
  by (induction ps) (auto simp: mutate_def)

lemma map_of_keys: "(map_of ps k \<noteq> None) = (k \<in> set (map fst ps))"
  by (simp add: map_of_eq_None_iff)

lemma forEachE_invariant:
  assumes "I s" and "\<And>a u. a \<in> set as \<Longrightarrow> I u \<Longrightarrow> \<exists>u'. f a u = Inr u' \<and> I u'"
  shows "\<exists>s'. forEachE f as s = Inr s' \<and> I s'"
  using assms
proof (induction as arbitrary: s)
  case Nil
  then show ?case by simp
next
  case (Cons a as)
  from Cons.prems(2) [of a s] Cons.prems(1) obtain u where u: "f a s = Inr u" "I u"
    by auto
  from Cons.IH [OF u(2)] Cons.prems(2) obtain s' where "forEachE f as u = Inr s'" "I s'"
    by (metis list.set_intros(2))
  with u show ?case by simp
qed

lemma repel_keys:
  assumes "id' nodeA \<in> set (map fst ps)" and "id' nodeB \<in> set (map fst ps)"
  shows "\<exists>ps'. repel nodeA nodeB ps = Inr ps' \<and> map fst ps' = map fst ps"
proof -
  from assms obtain pa pb where "map_of ps (id' nodeA) = Some pa" "map_of ps (id' nodeB) = Some pb"
    using map_of_keys [of ps] by (metis not_None_eq)
  then show ?thesis
    by (simp add: repel_def Let_def keys_mutate)
qed

lemma repulsion_keys:
  assumes "id' ` set ns \<subseteq> set (map fst ps)"
  shows "\<exists>ps'. repulsion ns ps = Inr ps' \<and> map fst ps' = map fst ps"
  unfolding repulsion_def
proof (rule forEachE_invariant [where I = "\<lambda>u. map fst u = map fst ps"])
  fix nodeA and u :: PositionMap
  assume A: "nodeA \<in> set ns" and u: "map fst u = map fst ps"
  show "\<exists>u'. forEachE (repel nodeA) ns u = Inr u' \<and> map fst u' = map fst ps"
  proof (rule forEachE_invariant [where I = "\<lambda>u. map fst u = map fst ps"])
    fix nodeB and w :: PositionMap
    assume B: "nodeB \<in> set ns" and w: "map fst w = map fst ps"
    from repel_keys [of nodeA w nodeB] A B assms w
    show "\<exists>u'. repel nodeA nodeB w = Inr u' \<and> map fst u' = map fst ps"
      by auto
  qed (rule u)
qed simp

lemma attract_keys: "map fst (attract lnk ps) = map fst ps"
  by (simp add: attract_def Let_def keys_mutate split: option.splits)

lemma fold_attract_keys: "map fst (fold attract links ps) = map fst ps"
  by (induction links arbitrary: ps) (simp_all add: attract_keys)

lemma integrate_keys:
  assumes "id' node \<in> set (map fst (positions s))"
  shows "\<exists>s'. integrate rnd randomize iterations iter node s = Inr s' \<and>
              map fst (positions s') = map fst (positions s)"
proof -
  from assms obtain pos where "map_of (positions s) (id' node) = Some pos"
    using map_of_keys [of "positions s"] by (metis not_None_eq)
  then show ?thesis
    by (simp add: integrate_def Let_def keys_mutate)
qed

lemma simStep_keys:
  assumes "id' ` set ns \<subseteq> set (map fst (positions s))"
  shows "\<exists>s'. simStep rnd randomize ns links iterations iter s = Inr s' \<and>
              map fst (positions s') = map fst (positions s)"
proof -
  from repulsion_keys [OF assms] obtain repelled where
    r: "repulsion ns (positions s) = Inr repelled" "map fst repelled = map fst (positions s)"
    by blast
  have "\<exists>s'. forEachE (integrate rnd randomize iterations iter) ns
               (s\<lparr>positions := fold attract links repelled\<rparr>) = Inr s' \<and>
             map fst (positions s') = map fst (positions s)"
  proof (rule forEachE_invariant [where I = "\<lambda>u. map fst (positions u) = map fst (positions s)"])
    show "map fst (positions (s\<lparr>positions := fold attract links repelled\<rparr>)) = map fst (positions s)"
      by (simp add: fold_attract_keys r(2))
    fix node and u :: sim
    assume "node \<in> set ns" and u: "map fst (positions u) = map fst (positions s)"
    with assms have "id' node \<in> set (map fst (positions u))" by auto
    from integrate_keys [OF this, where rnd = rnd and randomize = randomize
        and iterations = iterations and iter = iter] u
    show "\<exists>u'. integrate rnd randomize iterations iter node u = Inr u' \<and>
               map fst (positions u') = map fst (positions s)"
      by auto
  qed
  with r(1) show ?thesis by (simp add: simStep_def)
qed

lemma simulate_keys:
  assumes "id' ` set ns \<subseteq> set (map fst (positions s))"
  shows "\<exists>s'. simulate rnd randomize ns links iterations iter s = Inr s' \<and>
              map fst (positions s') = map fst (positions s)"
  using assms
proof (induction "iterations - iter" arbitrary: iter s)
  case 0
  then show ?case by simp
next
  case (Suc n)
  then have lt: "iter < iterations" by simp
  from simStep_keys [OF Suc.prems, where rnd = rnd and randomize = randomize
      and links = links and iterations = iterations and iter = iter] obtain s1 where
    s1: "simStep rnd randomize ns links iterations iter s = Inr s1"
      "map fst (positions s1) = map fst (positions s)"
    by blast
  have "n = iterations - (iter + 1)" using Suc.hyps(2) by simp
  from Suc.hyps(1) [OF this, of s1] Suc.prems s1(2) obtain s' where
    "simulate rnd randomize ns links iterations (iter + 1) s1 = Inr s'"
    "map fst (positions s') = map fst (positions s1)"
    by auto
  with s1 lt show ?case by simp
qed

lemma initNode_keys:
  "set (map fst (positions (initNode rnd randomize n z s)))
     = insert (id' (fst z)) (set (map fst (positions s))) \<and>
   (distinct (map fst (positions s)) \<longrightarrow> distinct (map fst (positions (initNode rnd randomize n z s))))"
  by (cases z) (simp add: initNode_def Let_def dom_update distinct_update)

lemma fold_initNode_keys:
  "set (map fst (positions (fold (initNode rnd randomize n) zs s)))
     = id' ` fst ` set zs \<union> set (map fst (positions s)) \<and>
   (distinct (map fst (positions s)) \<longrightarrow>
      distinct (map fst (positions (fold (initNode rnd randomize n) zs s))))"
proof (induction zs arbitrary: s)
  case Nil
  show ?case by simp
next
  case (Cons z zs)
  show ?case
    using Cons.IH [of "initNode rnd randomize n z s"] initNode_keys [of rnd randomize n z s]
    by auto
qed

lemma initPositions_keys:
  "set (map fst (positions (initPositions rnd randomize ns))) = id' ` set ns \<and>
   distinct (map fst (positions (initPositions rnd randomize ns)))"
proof -
  have "fst ` set (zip ns [0..<length ns]) = set ns"
    by (metis length_upt map_fst_zip minus_nat.diff_0 set_map)
  with fold_initNode_keys [of rnd randomize "length ns" "zip ns [0..<length ns]"
      "\<lparr>positions = [], draws = 0\<rparr>"]
  show ?thesis by (simp add: initPositions_def)
qed

lemma normalizeLayout_keys: "map fst (normalizeLayout ps) = map fst ps"
  by (auto simp: normalizeLayout_def Let_def split: bound.splits prod.splits)

lemma attract_dangling:
  "source lnk \<notin> set (map fst ps) \<or> target lnk \<notin> set (map fst ps) \<Longrightarrow> attract lnk ps = ps"
  using map_of_keys [of ps]
  by (auto simp: attract_def split: option.splits)

subsection \<open>A single node never moves\<close>

lemma oneNode_init: "initPositions rnd False oneNode = \<lparr>positions = atRest, draws = 0\<rparr>"
  by (simp add: initPositions_def initNode_def oneNode_def atRest_def)

lemma oneNode_step:
  "simStep rnd False oneNode (replicate m dangling) its it \<lparr>positions = atRest, draws = 0\<rparr>
     = Inr \<lparr>positions = atRest, draws = 0\<rparr>"
proof -
  have "fold attract (replicate m dangling) atRest = atRest"
    by (induction m) (simp_all add: attract_def dangling_def atRest_def)
  then show ?thesis
    by (simp add: simStep_def repulsion_def repel_def oneNode_def)
       (simp add: integrate_def mutate_def atRest_def)
qed

lemma oneNode_simulate:
  "simulate rnd False oneNode (replicate m dangling) its it \<lparr>positions = atRest, draws = 0\<rparr>
     = Inr \<lparr>positions = atRest, draws = 0\<rparr>"
proof (induction "its - it" arbitrary: it)
  case 0
  then show ?case by simp
next
  case (Suc n)
  then have lt: "it < its" and n: "n = its - (it + 1)" by simp_all
  from Suc.hyps(1) [OF n] lt show ?case
    by (simp add: oneNode_step)
qed

lemma oneNode_layout_general:
  "forceDirectedLayout rnd oneNode (replicate m dangling) False
     = Inr [(''form'', \<lparr>x = 0, y = 0, vx = 0, vy = 0\<rparr>)]"
  unfolding forceDirectedLayout_def oneNode_init oneNode_simulate
  by (simp add: normalizeLayout_def atRest_def targetSize_def)


lemma oneNode_layout_dangling:
  "forceDirectedLayout rnd oneNode [dangling] False
     = Inr [(''form'', \<lparr>x = 0, y = 0, vx = 0, vy = 0\<rparr>)]"
  using oneNode_layout_general [of rnd 1] by simp

subsection \<open>Totality\<close>

text \<open>
  C10.  For every node list and every link list \<^verbatim>\<open>forceDirectedLayout\<close> returns a map
  with exactly one entry per node id and no other; a link with an endpoint that has no
  position leaves the map as it is in the attraction pass.
\<close>

theorem forceDirectedLayout_total:
  "(\<exists>ps. forceDirectedLayout rnd ns links randomize = Inr ps \<and>
         distinct (map fst ps) \<and> set (map fst ps) = id' ` set ns) \<and>
   (\<forall>lnk qs. source lnk \<notin> set (map fst qs) \<or> target lnk \<notin> set (map fst qs)
       \<longrightarrow> attract lnk qs = qs)"
proof -
  let ?its = "if randomize then 200 else 100 :: nat"
  let ?s0 = "initPositions rnd randomize ns"
  have "id' ` set ns \<subseteq> set (map fst (positions ?s0))"
    using initPositions_keys [of rnd randomize ns] by simp
  from simulate_keys [OF this, where rnd = rnd and randomize = randomize
      and links = links and iterations = ?its and iter = 0] obtain s' where
    s': "simulate rnd randomize ns links ?its 0 ?s0 = Inr s'"
      "map fst (positions s') = map fst (positions ?s0)"
    by blast
  have "forceDirectedLayout rnd ns links randomize = Inr (normalizeLayout (positions s'))"
    using s'(1) by (simp add: forceDirectedLayout_def Let_def)
  moreover have "map fst (normalizeLayout (positions s')) = map fst (positions ?s0)"
    by (simp add: normalizeLayout_keys s'(2))
  ultimately have "\<exists>ps. forceDirectedLayout rnd ns links randomize = Inr ps \<and>
         distinct (map fst ps) \<and> set (map fst ps) = id' ` set ns"
    using initPositions_keys [of rnd randomize ns] by (simp only: sum.inject simp_thms ex_simps)
  then show ?thesis
    using attract_dangling by blast
qed

theorem forceDirectedLayout_total_witness:
  "target dangling \<notin> set (map fst atRest) \<and> attract dangling atRest = atRest \<and>
   forceDirectedLayout stuckSource oneNode [dangling] False
     = Inr [(''form'', \<lparr>x = 0, y = 0, vx = 0, vy = 0\<rparr>)] \<and>
   set (map fst [(''form'', \<lparr>x = 0, y = 0, vx = 0, vy = 0\<rparr>)]) = id' ` set oneNode"
proof -
  have d: "target dangling \<notin> set (map fst atRest)"
    by (simp add: dangling_def atRest_def)
  from forceDirectedLayout_total [of stuckSource oneNode "[dangling]" False]
  have "attract dangling atRest = atRest" using d by blast
  with d oneNode_layout_dangling [of stuckSource] show ?thesis
    by (simp add: oneNode_def)
qed


subsection \<open>Independence of the random source\<close>

lemma initNode_det: "initNode rnd False n = initNode rnd' False n"
  by (simp add: initNode_def fun_eq_iff)

lemma initPositions_det: "initPositions rnd False ns = initPositions rnd' False ns"
  unfolding initPositions_def initNode_det [of rnd "length ns" rnd'] ..

lemma integrate_det: "integrate rnd False its it = integrate rnd' False its it"
  by (auto simp: integrate_def fun_eq_iff Let_def split: option.splits)

lemma simStep_det: "simStep rnd False ns links its it s = simStep rnd' False ns links its it s"
  unfolding simStep_def integrate_det [of rnd its it rnd'] ..

lemma simulate_det:
  "simulate rnd False ns links its it s = simulate rnd' False ns links its it s"
proof (induction "its - it" arbitrary: it s)
  case 0
  then show ?case by simp
next
  case (Suc n)
  then have lt: "it < its" and n: "n = its - (it + 1)" by simp_all
  show ?case
  proof (cases "simStep rnd' False ns links its it s")
    case (Inl e)
    with lt show ?thesis by (simp add: simStep_det [of rnd ns links its it s rnd'])
  next
    case (Inr s1)
    with lt Suc.hyps(1) [OF n, of s1] show ?thesis
      by (simp add: simStep_det [of rnd ns links its it s rnd'])
  qed
qed

text \<open>
  C6.  With \<^verbatim>\<open>randomize = false\<close> the result of \<^verbatim>\<open>forceDirectedLayout\<close> does not depend on
  the random source: two calls with the same nodes and links return the same map.
\<close>

theorem forceDirectedLayout_deterministic:
  "forceDirectedLayout rnd ns links False = forceDirectedLayout rnd' ns links False"
  unfolding forceDirectedLayout_def initPositions_det [of rnd ns rnd']
    simulate_det [of rnd ns links _ _ _ rnd'] ..

subsection \<open>The normalisation pass\<close>















subsection \<open>Three nodes without links stay an equilateral triangle\<close>











subsection \<open>The run on three nodes stays in range\<close>












subsection \<open>Normalisation of the result\<close>







end
